theory Spec2Isabelle
  imports Main "HOL-Library.Word"
begin

unbundle bit_operations_syntax

section \<open>Machine types\<close>

text \<open>
  The online phase of \<^verbatim>\<open>main.cpp\<close> computes with \<^verbatim>\<open>uint\<close> (32 bits, wrapping),
  reads \<^verbatim>\<open>osuCrypto::u8\<close> bytes and \<^verbatim>\<open>osuCrypto::u64\<close> choice values, and takes its
  randomness from 128-bit \<^verbatim>\<open>osuCrypto::block\<close>s. A block is modelled by the 128-bit
  number whose byte \<open>k\<close> in memory holds bits \<open>8k .. 8k+7\<close> (the little-endian hosts
  libOTe runs on). An \<^verbatim>\<open>int32_t\<close> is modelled by its mathematical value.
\<close>

type_synonym u8 = "8 word"
type_synonym u32 = "32 word"
type_synonym u64 = "64 word"
type_synonym block = "128 word"
type_synonym int32 = int

section \<open>Parameters\<close>

text \<open>
  \<^verbatim>\<open>const uint n = 482;  const uint tau = 1 << 16;  const uint lg_q = 12;
  const uint q = 1 << lg_q;  const uint lg_lg_p = 3;  const uint lg_p = 1 << lg_lg_p;
  const uint p = 1 << lg_p;  const uint lg_delta = 7 - lg_lg_p;
  const uint delta = 1 << lg_delta;  const uint num_rounds = 10;\<close>

  The source invites changing these constants ("When changing the parameters, one
  should be careful to make sure that they are consistent"), so the independent ones
  are the fields of a record and the derived ones are functions of it, computed as
  the source computes them. \<open>shipped\<close> is the configuration in the file.
  (\<^verbatim>\<open>kappa\<close> and \<^verbatim>\<open>baseOtCount\<close> only concern the benchmarked preprocessing
  variants and are left out.)
\<close>

record params =
  n :: u32
  tau :: u32
  lg_q :: u32
  lg_lg_p :: u32
  num_rounds :: u32

definition q :: "params \<Rightarrow> u32" where
  "q P = push_bit (unat (lg_q P)) 1"

definition lg_p :: "params \<Rightarrow> u32" where
  "lg_p P = push_bit (unat (lg_lg_p P)) 1"

definition p :: "params \<Rightarrow> u32" where
  "p P = push_bit (unat (lg_p P)) 1"

definition lg_delta :: "params \<Rightarrow> u32" where
  "lg_delta P = 7 - lg_lg_p P"

definition delta :: "params \<Rightarrow> u32" where
  "delta P = push_bit (unat (lg_delta P)) 1"

definition shipped :: params where
  "shipped = \<lparr>n = 482, tau = push_bit 16 1, lg_q = 12, lg_lg_p = 3, num_rounds = 10\<rparr>"

section \<open>Faults, array accesses and loops\<close>

text \<open>
  Reading or writing a \<^verbatim>\<open>std::vector\<close>, an \<^verbatim>\<open>AlignedVector\<close>, a \<^verbatim>\<open>BitVector\<close> or
  the \<^verbatim>\<open>malloc\<close>ed buffer outside its bounds has no defined result in C++; the model
  stops with \<open>OutOfBounds\<close>, which marks the point where the source no longer
  determines what the binary does, not an observable event of it. The theorems about
  results are about runs, or parts of runs, whose accesses are proved in range. A failing
  \<^verbatim>\<open>assert\<close> aborts the process: \<open>AssertionFailed\<close>.
\<close>

datatype fault = OutOfBounds | AssertionFailed

definition bind_f :: "fault + 'a \<Rightarrow> ('a \<Rightarrow> fault + 'b) \<Rightarrow> fault + 'b" where
  "bind_f m f = (case m of Inl e \<Rightarrow> Inl e | Inr v \<Rightarrow> f v)"

definition read_at :: "'a list \<Rightarrow> nat \<Rightarrow> fault + 'a" where
  "read_at xs i = (if i < length xs then Inr (xs ! i) else Inl OutOfBounds)"

definition write_at :: "'a list \<Rightarrow> nat \<Rightarrow> 'a \<Rightarrow> fault + 'a list" where
  "write_at xs i v = (if i < length xs then Inr (xs[i := v]) else Inl OutOfBounds)"

text \<open>
  \<^verbatim>\<open>for (int i = 0; i < bound; i++) body\<close> runs the body for the indices in order and
  threads the variables the body assigns; a fault ends it.
\<close>

fun for_loop :: "nat list \<Rightarrow> (nat \<Rightarrow> 's \<Rightarrow> fault + 's) \<Rightarrow> 's \<Rightarrow> fault + 's" where
  "for_loop [] body s = Inr s"
| "for_loop (i # is) body s =
     (case body i s of Inl e \<Rightarrow> Inl e | Inr s' \<Rightarrow> for_loop is body s')"

section \<open>Lane 0 of a block\<close>

text \<open>
  \<^verbatim>\<open>int32_t arr[4];  memcpy(arr, &blk, sizeof(arr));  uint v = arr[0];\<close>

  \<open>memcpy_int32x4\<close> is the array of four signed lanes, \<open>uint_of_int32\<close> the implicit
  conversion of the assignment to a \<^verbatim>\<open>uint\<close>. \<open>lane0\<close> is the reading the
  specification uses: lane 0 as an unsigned 32-bit integer.
\<close>

definition memcpy_int32x4 :: "block \<Rightarrow> int32 list" where
  "memcpy_int32x4 blk = map (\<lambda>k. sint (ucast (drop_bit (32 * k) blk) :: u32)) [0, 1, 2, 3]"

definition uint_of_int32 :: "int32 \<Rightarrow> u32" where
  "uint_of_int32 v = word_of_int v"

definition lane0 :: "block \<Rightarrow> u32" where
  "lane0 blk = ucast blk"

text \<open>An element of a \<^verbatim>\<open>std::array<T, 2>\<close> selected by a bit.\<close>

definition sel2 :: "'a \<times> 'a \<Rightarrow> bool \<Rightarrow> 'a" where
  "sel2 pr c = (if c then snd pr else fst pr)"

section \<open>Parsing the phase-one sender output\<close>

text \<open>
  \<^verbatim>\<open>std::vector<std::array<uint, 2>> Sc_uint(n * tau);
  for (int i = 0; i < n * tau; i++) {
      int32_t arr0[4];  memcpy(arr0, &Sc[i][0], sizeof(arr0));
      int32_t arr1[4];  memcpy(arr1, &Sc[i][1], sizeof(arr1));
      Sc_uint[i][0] = (arr0[0]);  Sc_uint[i][1] = (arr1[0]);
  }\<close>
\<close>

definition parse_Sc_body :: "(block \<times> block) list \<Rightarrow> nat \<Rightarrow> (u32 \<times> u32) list \<Rightarrow> fault + (u32 \<times> u32) list" where
  "parse_Sc_body Sc i Sc_uint =
     bind_f (read_at Sc i) (\<lambda>Sc_i.
       let arr0 = memcpy_int32x4 (fst Sc_i);
           arr1 = memcpy_int32x4 (snd Sc_i)
       in write_at Sc_uint i (uint_of_int32 (arr0 ! 0), uint_of_int32 (arr1 ! 0)))"

definition parse_Sc :: "params \<Rightarrow> (block \<times> block) list \<Rightarrow> fault + (u32 \<times> u32) list" where
  "parse_Sc P Sc =
     for_loop [0 ..< unat (n P * tau P)] (parse_Sc_body Sc)
       (replicate (unat (n P * tau P)) (0, 0))"

section \<open>The online round\<close>

subsection \<open>Request\<close>

text \<open>
  \<^verbatim>\<open>osuCrypto::AlignedVector<uint> a(n), e_0(n), e_1(n);
  uint c_sum = 0;
  int size = 2 * n * sizeof(osuCrypto::u8);
  ... ro.Final(dest);
  for (int i = 0; i < n; i++) {
      uint high = dest[2 * i];
      uint low = dest[2 * i + 1];
      a[i] = ((high << 8) | low) & (q - 1);
      e_0[i] = 0;
      uint c_i = (e_0[i] - (Sc_uint[(ctr * n) + i][b_bar[i]])) & (q - 1);
      e_1[i] = (a[i] + c_i + Sc_uint[(ctr * n) + i][1 - b_bar[i]]) & (q - 1);
      c_sum += c_i;
  }
  c_sum = c_sum & (q - 1);
  uint bpr_bar = ((c_sum & (delta - 1)) - bpr[ctr]) & (delta - 1);\<close>

  \<open>dest\<close> is the buffer the random oracle (cryptoTools, outside this file) has filled
  for the round's seeds \<open>(t, x)\<close>. The loop state is \<open>(a, e_0, e_1, c_sum)\<close>.
  \<^verbatim>\<open>bpr\<close> holds 64-bit values, so the subtraction and the mask of \<open>bpr_bar\<close> are done
  on 64 bits and the result is truncated by the assignment.
\<close>

definition request_body ::
  "params \<Rightarrow> (u32 \<times> u32) list \<Rightarrow> bool list \<Rightarrow> u8 list \<Rightarrow> u32 \<Rightarrow> nat \<Rightarrow>
   u32 list \<times> u32 list \<times> u32 list \<times> u32 \<Rightarrow> fault + (u32 list \<times> u32 list \<times> u32 list \<times> u32)" where
  "request_body P Sc_uint b_bar dest ctr i = (\<lambda>(a, e_0, e_1, c_sum).
     bind_f (read_at dest (2 * i)) (\<lambda>d0.
     bind_f (read_at dest (2 * i + 1)) (\<lambda>d1.
       let high = (ucast d0 :: u32);
           low = (ucast d1 :: u32)
       in
     bind_f (write_at a i ((push_bit 8 high OR low) AND (q P - 1))) (\<lambda>a.
     bind_f (write_at e_0 i 0) (\<lambda>e_0.
     bind_f (read_at e_0 i) (\<lambda>e_0_i.
     bind_f (read_at Sc_uint (unat (ctr * n P + of_nat i))) (\<lambda>Sc_k.
     bind_f (read_at b_bar i) (\<lambda>b_bar_i.
       let c_i = (e_0_i - sel2 Sc_k b_bar_i) AND (q P - 1) in
     bind_f (read_at a i) (\<lambda>a_i.
     bind_f (write_at e_1 i ((a_i + c_i + sel2 Sc_k (\<not> b_bar_i)) AND (q P - 1))) (\<lambda>e_1.
       Inr (a, e_0, e_1, c_sum + c_i)))))))))))"

definition request ::
  "params \<Rightarrow> (u32 \<times> u32) list \<Rightarrow> bool list \<Rightarrow> u64 list \<Rightarrow> u8 list \<Rightarrow> u32 \<Rightarrow>
   fault + (u32 list \<times> u32 list \<times> u32 list \<times> u32 \<times> u32)" where
  "request P Sc_uint b_bar bpr dest ctr =
     bind_f (for_loop [0 ..< unat (n P)] (request_body P Sc_uint b_bar dest ctr)
               (replicate (unat (n P)) 0, replicate (unat (n P)) 0, replicate (unat (n P)) 0, 0))
       (\<lambda>(a, e_0, e_1, c_sum).
          let c_sum = c_sum AND (q P - 1) in
          bind_f (read_at bpr (unat ctr)) (\<lambda>bpr_ctr.
            let bpr_bar = (ucast (((ucast (c_sum AND (delta P - 1)) :: u64) - bpr_ctr)
                                   AND ucast (delta P - 1)) :: u32)
            in Inr (a, e_0, e_1, c_sum, bpr_bar)))"

subsection \<open>BlindEval\<close>

text \<open>
  \<^verbatim>\<open>osuCrypto::AlignedVector<std::array<uint, 2>> atil(n);
  uint atil_sum = 0;
  for (int i = 0; i < n; i++) {
      int32_t arr[4];  memcpy(arr, &Rs_r[(ctr * n) + i], sizeof(arr));
      uint Rs_r_uint = arr[0];
      atil[i][0] = (e_0[i] - Rs_r_uint) & (q - 1);
      atil[i][1] = (e_1[i] - Rs_r_uint) & (q - 1);
      atil_sum += atil[i][sk[i]];
  }
  atil_sum = atil_sum & (q - 1);
  osuCrypto::AlignedVector<uint> y(delta);
  for (int i = 0; i < delta; i++) {
      int32_t arr[4];  memcpy(arr, &Ss[ctr][(i - bpr_bar) & (delta - 1)], sizeof(arr));
      uint Ss_uint = arr[0];
      y[i] = ((((atil_sum - i) & (q - 1)) >> lg_delta) + Ss_uint) & (p - 1);
  }\<close>

  \<^verbatim>\<open>Ss\<close> is a \<open>tau \<times> delta\<close> matrix, modelled by the list of its rows.
\<close>

definition blind_eval_body ::
  "params \<Rightarrow> block list \<Rightarrow> bool list \<Rightarrow> u32 list \<Rightarrow> u32 list \<Rightarrow> u32 \<Rightarrow> nat \<Rightarrow>
   (u32 \<times> u32) list \<times> u32 \<Rightarrow> fault + ((u32 \<times> u32) list \<times> u32)" where
  "blind_eval_body P Rs_r sk e_0 e_1 ctr i = (\<lambda>(atil, atil_sum).
     bind_f (read_at Rs_r (unat (ctr * n P + of_nat i))) (\<lambda>blk.
       let arr = memcpy_int32x4 blk;
           Rs_r_uint = uint_of_int32 (arr ! 0)
       in
     bind_f (read_at e_0 i) (\<lambda>e_0_i.
     bind_f (read_at e_1 i) (\<lambda>e_1_i.
     bind_f (write_at atil i ((e_0_i - Rs_r_uint) AND (q P - 1), (e_1_i - Rs_r_uint) AND (q P - 1))) (\<lambda>atil.
     bind_f (read_at atil i) (\<lambda>atil_i.
     bind_f (read_at sk i) (\<lambda>sk_i.
       Inr (atil, atil_sum + sel2 atil_i sk_i))))))))"

definition y_body ::
  "params \<Rightarrow> block list list \<Rightarrow> u32 \<Rightarrow> u32 \<Rightarrow> u32 \<Rightarrow> nat \<Rightarrow> u32 list \<Rightarrow> fault + u32 list" where
  "y_body P Ss bpr_bar atil_sum ctr i y =
     bind_f (read_at Ss (unat ctr)) (\<lambda>row.
     bind_f (read_at row (unat ((of_nat i - bpr_bar) AND (delta P - 1)))) (\<lambda>blk.
       let arr = memcpy_int32x4 blk;
           Ss_uint = uint_of_int32 (arr ! 0)
       in write_at y i
            ((drop_bit (unat (lg_delta P)) ((atil_sum - of_nat i) AND (q P - 1)) + Ss_uint)
               AND (p P - 1))))"

definition blind_eval ::
  "params \<Rightarrow> block list \<Rightarrow> block list list \<Rightarrow> bool list \<Rightarrow> u32 list \<Rightarrow> u32 list \<Rightarrow> u32 \<Rightarrow> u32 \<Rightarrow>
   fault + u32 list" where
  "blind_eval P Rs_r Ss sk e_0 e_1 bpr_bar ctr =
     bind_f (for_loop [0 ..< unat (n P)] (blind_eval_body P Rs_r sk e_0 e_1 ctr)
               (replicate (unat (n P)) (0, 0), 0))
       (\<lambda>(atil, atil_sum).
          let atil_sum = atil_sum AND (q P - 1) in
          for_loop [0 ..< unat (delta P)] (y_body P Ss bpr_bar atil_sum ctr)
            (replicate (unat (delta P)) 0))"

subsection \<open>Finalize\<close>

text \<open>
  \<^verbatim>\<open>int32_t arr[4];  memcpy(arr, &Rc_r[ctr], sizeof(arr));
  uint Rc_r_uint = arr[0];
  uint y_c_sum_mod_delta = y[c_sum & (delta - 1)];
  uint y_final = (y_c_sum_mod_delta - Rc_r_uint);
  uint temp_val = ((c_sum - (c_sum & (delta - 1))) >> lg_delta);
  uint z = (y_final - temp_val) & (p - 1);\<close>
\<close>

definition temp_val :: "params \<Rightarrow> u32 \<Rightarrow> u32" where
  "temp_val P c_sum = drop_bit (unat (lg_delta P)) (c_sum - (c_sum AND (delta P - 1)))"

definition finalize :: "params \<Rightarrow> block list \<Rightarrow> u32 list \<Rightarrow> u32 \<Rightarrow> u32 \<Rightarrow> fault + u32" where
  "finalize P Rc_r y c_sum ctr =
     bind_f (read_at Rc_r (unat ctr)) (\<lambda>blk.
       let arr = memcpy_int32x4 blk;
           Rc_r_uint = uint_of_int32 (arr ! 0)
       in
     bind_f (read_at y (unat (c_sum AND (delta P - 1)))) (\<lambda>y_c_sum_mod_delta.
       let y_final = y_c_sum_mod_delta - Rc_r_uint
       in Inr ((y_final - temp_val P c_sum) AND (p P - 1))))"

subsection \<open>One evaluation: Request, BlindEval, Finalize\<close>

definition eval_round ::
  "params \<Rightarrow> (u32 \<times> u32) list \<Rightarrow> block list \<Rightarrow> block list list \<Rightarrow> block list \<Rightarrow> u64 list \<Rightarrow>
   bool list \<Rightarrow> bool list \<Rightarrow> u8 list \<Rightarrow> u32 \<Rightarrow> fault + (u32 list \<times> u32)" where
  "eval_round P Sc_uint Rs_r Ss Rc_r bpr sk b_bar dest ctr =
     bind_f (request P Sc_uint b_bar bpr dest ctr) (\<lambda>(a, e_0, e_1, c_sum, bpr_bar).
     bind_f (blind_eval P Rs_r Ss sk e_0 e_1 bpr_bar ctr) (\<lambda>y.
     bind_f (finalize P Rc_r y c_sum ctr) (\<lambda>z.
       Inr (a, z))))"

subsection \<open>The sanity check and the loop over the rounds\<close>

text \<open>
  \<^verbatim>\<open>uint eval_z = 0;
  for (int i = 0; i < n; i++) { if (sk[i]) { eval_z += a[i]; } }
  eval_z = ((eval_z) >> lg_delta) & (p - 1);
  assert(eval_z == z);
  ctr++;\<close>
\<close>

definition sanity_body :: "bool list \<Rightarrow> u32 list \<Rightarrow> nat \<Rightarrow> u32 \<Rightarrow> fault + u32" where
  "sanity_body sk a i eval_z =
     bind_f (read_at sk i) (\<lambda>sk_i.
       if sk_i then bind_f (read_at a i) (\<lambda>a_i. Inr (eval_z + a_i)) else Inr eval_z)"

definition sanity_check :: "params \<Rightarrow> bool list \<Rightarrow> u32 list \<Rightarrow> fault + u32" where
  "sanity_check P sk a =
     bind_f (for_loop [0 ..< unat (n P)] (sanity_body sk a) 0) (\<lambda>eval_z.
       Inr (drop_bit (unat (lg_delta P)) eval_z AND (p P - 1)))"

text \<open>
  \<^verbatim>\<open>uint ctr = 0;
  for (int round = 0; round < num_rounds; round++) {
      <Request, BlindEval, Finalize>
      std::cout << "Result: " << z << ...;
      <sanity check>
      ctr++;
  }\<close>

  The state of the loop is the counter and the list of the results printed so far;
  \<open>dests round\<close> is the random-oracle output of the round. What has been printed
  stays printed when a fault ends the run, so the loop returns the state it reached
  and the fault, if any. The model keeps the \<^verbatim>\<open>assert\<close> (a build without
  \<^verbatim>\<open>NDEBUG\<close>).
\<close>

fun online_loop ::
  "params \<Rightarrow> (u32 \<times> u32) list \<Rightarrow> block list \<Rightarrow> block list list \<Rightarrow> block list \<Rightarrow> u64 list \<Rightarrow>
   bool list \<Rightarrow> bool list \<Rightarrow> (nat \<Rightarrow> u8 list) \<Rightarrow> nat list \<Rightarrow> u32 \<times> u32 list \<Rightarrow>
   (u32 \<times> u32 list) \<times> fault option" where
  "online_loop P Sc_uint Rs_r Ss Rc_r bpr sk b_bar dests [] st = (st, None)"
| "online_loop P Sc_uint Rs_r Ss Rc_r bpr sk b_bar dests (round # rounds) (ctr, out) =
     (case eval_round P Sc_uint Rs_r Ss Rc_r bpr sk b_bar (dests round) ctr of
        Inl e \<Rightarrow> ((ctr, out), Some e)
      | Inr (a, z) \<Rightarrow>
          (case sanity_check P sk a of
             Inl e \<Rightarrow> ((ctr, out @ [z]), Some e)
           | Inr eval_z \<Rightarrow>
               if eval_z = z
               then online_loop P Sc_uint Rs_r Ss Rc_r bpr sk b_bar dests rounds (ctr + 1, out @ [z])
               else ((ctr, out @ [z]), Some AssertionFailed)))"

definition online_phase ::
  "params \<Rightarrow> (u32 \<times> u32) list \<Rightarrow> block list \<Rightarrow> block list list \<Rightarrow> block list \<Rightarrow> u64 list \<Rightarrow>
   bool list \<Rightarrow> bool list \<Rightarrow> (nat \<Rightarrow> u8 list) \<Rightarrow> (u32 \<times> u32 list) \<times> fault option" where
  "online_phase P Sc_uint Rs_r Ss Rc_r bpr sk b_bar dests =
     online_loop P Sc_uint Rs_r Ss Rc_r bpr sk b_bar dests [0 ..< unat (num_rounds P)] (0, [])"

section \<open>Phase one: the receiver's choice bits\<close>

text \<open>
  \<^verbatim>\<open>osuCrypto::BitVector b_n(n);
  b_n.randomize(prng);
  for (int j = 0; j < tau; j++) {
      for (int i = 0; i < n; i++) {
          b[j * n + i] = b_n[i];
      }
  }\<close>

  \<^verbatim>\<open>phase_one_iknp_receive\<close> then hands \<open>b\<close> to the OT extender as its choices; the
  extender (libOTe) reads them and writes \<^verbatim>\<open>Rs_r\<close>. \<open>b_n\<close> is the sampled pattern.
\<close>

definition tile_body :: "params \<Rightarrow> bool list \<Rightarrow> nat \<Rightarrow> nat \<Rightarrow> bool list \<Rightarrow> fault + bool list" where
  "tile_body P b_n j i b =
     bind_f (read_at b_n i) (\<lambda>b_n_i. write_at b (unat (of_nat j * n P + of_nat i)) b_n_i)"

definition phase_one_iknp_receive_b :: "params \<Rightarrow> bool list \<Rightarrow> bool list \<Rightarrow> fault + bool list" where
  "phase_one_iknp_receive_b P b_n b =
     for_loop [0 ..< unat (tau P)] (\<lambda>j. for_loop [0 ..< unat (n P)] (tile_body P b_n j)) b"

section \<open>Consistent parameters\<close>

text \<open>
  "When changing the parameters, one should be careful to make sure that they are
  consistent": the moduli must satisfy \<open>delta * p = q\<close> with \<open>q\<close> a 32-bit power of
  two, and the \<open>n * tau\<close> slots of phase one must be countable by the \<^verbatim>\<open>int\<close> loop
  variables. The source states this in a comment only; the theorems take it as a
  hypothesis. \<open>shipped\<close> satisfies it.
\<close>

definition consistent :: "params \<Rightarrow> bool" where
  "consistent P \<longleftrightarrow>
     unat (lg_delta P) + unat (lg_p P) = unat (lg_q P) \<and> unat (lg_q P) < 32 \<and>
     unat (n P) * unat (tau P) < 2 ^ 31"

section \<open>Closed forms of the loops\<close>

text \<open>
  The values the loops of the online round leave in their variables, written as
  expressions of the inputs. They are used in the proofs only; the lemmas below show
  that the loops compute them.
\<close>

definition req_a :: "params \<Rightarrow> u8 list \<Rightarrow> nat \<Rightarrow> u32" where
  "req_a P dest i = (push_bit 8 (ucast (dest ! (2 * i))) OR ucast (dest ! (2 * i + 1))) AND (q P - 1)"

definition req_c :: "params \<Rightarrow> (u32 \<times> u32) list \<Rightarrow> bool list \<Rightarrow> u32 \<Rightarrow> nat \<Rightarrow> u32" where
  "req_c P Sc_uint b_bar ctr i =
     (0 - sel2 (Sc_uint ! unat (ctr * n P + of_nat i)) (b_bar ! i)) AND (q P - 1)"

definition req_e1 :: "params \<Rightarrow> (u32 \<times> u32) list \<Rightarrow> bool list \<Rightarrow> u8 list \<Rightarrow> u32 \<Rightarrow> nat \<Rightarrow> u32" where
  "req_e1 P Sc_uint b_bar dest ctr i =
     (req_a P dest i + req_c P Sc_uint b_bar ctr i
        + sel2 (Sc_uint ! unat (ctr * n P + of_nat i)) (\<not> b_bar ! i)) AND (q P - 1)"

definition req_state ::
  "params \<Rightarrow> (u32 \<times> u32) list \<Rightarrow> bool list \<Rightarrow> u8 list \<Rightarrow> u32 \<Rightarrow> nat \<Rightarrow>
   u32 list \<times> u32 list \<times> u32 list \<times> u32" where
  "req_state P Sc_uint b_bar dest ctr i =
     (map (req_a P dest) [0 ..< i] @ replicate (unat (n P) - i) 0,
      replicate (unat (n P)) 0,
      map (req_e1 P Sc_uint b_bar dest ctr) [0 ..< i] @ replicate (unat (n P) - i) 0,
      \<Sum>j<i. req_c P Sc_uint b_bar ctr j)"

definition req_c_sum :: "params \<Rightarrow> (u32 \<times> u32) list \<Rightarrow> bool list \<Rightarrow> u32 \<Rightarrow> u32" where
  "req_c_sum P Sc_uint b_bar ctr = (\<Sum>j<unat (n P). req_c P Sc_uint b_bar ctr j) AND (q P - 1)"

definition req_bpr_bar :: "params \<Rightarrow> u32 \<Rightarrow> u64 \<Rightarrow> u32" where
  "req_bpr_bar P c_sum bpr_ctr =
     ucast (((ucast (c_sum AND (delta P - 1)) :: u64) - bpr_ctr) AND ucast (delta P - 1))"

definition be_atil :: "params \<Rightarrow> block list \<Rightarrow> u32 list \<Rightarrow> u32 list \<Rightarrow> u32 \<Rightarrow> nat \<Rightarrow> u32 \<times> u32" where
  "be_atil P Rs_r e_0 e_1 ctr i =
     ((e_0 ! i - lane0 (Rs_r ! unat (ctr * n P + of_nat i))) AND (q P - 1),
      (e_1 ! i - lane0 (Rs_r ! unat (ctr * n P + of_nat i))) AND (q P - 1))"

definition be_state ::
  "params \<Rightarrow> block list \<Rightarrow> bool list \<Rightarrow> u32 list \<Rightarrow> u32 list \<Rightarrow> u32 \<Rightarrow> nat \<Rightarrow> (u32 \<times> u32) list \<times> u32" where
  "be_state P Rs_r sk e_0 e_1 ctr i =
     (map (be_atil P Rs_r e_0 e_1 ctr) [0 ..< i] @ replicate (unat (n P) - i) (0, 0),
      \<Sum>j<i. sel2 (be_atil P Rs_r e_0 e_1 ctr j) (sk ! j))"

definition be_atil_sum :: "params \<Rightarrow> block list \<Rightarrow> bool list \<Rightarrow> u32 list \<Rightarrow> u32 list \<Rightarrow> u32 \<Rightarrow> u32" where
  "be_atil_sum P Rs_r sk e_0 e_1 ctr =
     (\<Sum>j<unat (n P). sel2 (be_atil P Rs_r e_0 e_1 ctr j) (sk ! j)) AND (q P - 1)"

definition be_y :: "params \<Rightarrow> block list list \<Rightarrow> u32 \<Rightarrow> u32 \<Rightarrow> u32 \<Rightarrow> nat \<Rightarrow> u32" where
  "be_y P Ss bpr_bar atil_sum ctr i =
     (drop_bit (unat (lg_delta P)) ((atil_sum - of_nat i) AND (q P - 1))
        + lane0 (Ss ! unat ctr ! unat ((of_nat i - bpr_bar) AND (delta P - 1)))) AND (p P - 1)"

section \<open>The parse the specification describes\<close>

text \<open>
  For comparison with \<open>request\<close>: the specification reads the random oracle's bytes
  as little-endian 16-bit integers, low byte \<open>dest[2i]\<close>, high byte \<open>dest[2i+1]\<close>,
  masked with \<open>q - 1\<close>.
\<close>

definition spec_a_little_endian :: "params \<Rightarrow> u8 list \<Rightarrow> nat \<Rightarrow> u32" where
  "spec_a_little_endian P dest i =
     (push_bit 8 (ucast (dest ! (2 * i + 1))) OR ucast (dest ! (2 * i))) AND (q P - 1)"

section \<open>Accumulating with a reduction after every addition\<close>

text \<open>
  For comparison with the accumulators \<^verbatim>\<open>c_sum\<close> and \<^verbatim>\<open>atil_sum\<close>, which the source
  masks once after the loop: the same sum with the mask applied after every addition.
\<close>

definition sum_reduced_each_step :: "params \<Rightarrow> u32 list \<Rightarrow> u32" where
  "sum_reduced_each_step P xs = foldl (\<lambda>acc x. (acc + x) AND (q P - 1)) 0 xs"

section \<open>A small session\<close>

text \<open>
  A configuration with two key bits and one preprocessed slot, and preprocessing
  material for it that satisfies the OT relations on lane 0 (one block has lane 0 equal
  to \<open>2^32 - 1\<close>, which is \<open>-1\<close> as an \<^verbatim>\<open>int32_t\<close>). The general theorems are
  instantiated on it.
\<close>

definition ex_P :: params where
  "ex_P = \<lparr>n = 2, tau = 1, lg_q = 12, lg_lg_p = 3, num_rounds = 1\<rparr>"
definition ex_Sc :: "(block \<times> block) list" where "ex_Sc = [(5, 0xFFFFFFFF), (7, 9)]"
definition ex_Sc_uint :: "(u32 \<times> u32) list" where "ex_Sc_uint = [(5, 0xFFFFFFFF), (7, 9)]"
definition ex_Rs_r :: "block list" where "ex_Rs_r = [5, 9]"
definition ex_Ss :: "block list list" where
  "ex_Ss = [[3, 1003, 2003, 3003, 4003, 5003, 6003, 7003, 8003, 9003, 10003, 11003, 12003, 13003, 14003, 15003]]"
definition ex_Rc_r :: "block list" where "ex_Rc_r = [5003]"
definition ex_bpr :: "u64 list" where "ex_bpr = [5]"
definition ex_b :: "bool list" where "ex_b = [False, True]"
definition ex_sk :: "bool list" where "ex_sk = [True, True]"
definition ex_b_bar :: "bool list" where "ex_b_bar = [True, False]"
definition ex_dest :: "u8 list" where "ex_dest = [0x12, 0x34, 0xAB, 0xCD]"

text \<open>The same session configured for two rounds although only one slot is preprocessed.\<close>

definition ex_P_over :: params where
  "ex_P_over = \<lparr>n = 2, tau = 1, lg_q = 12, lg_lg_p = 3, num_rounds = 2\<rparr>"

section \<open>Basic facts\<close>

text \<open>All moduli are powers of two, so every reduction in the source is a mask.\<close>

lemma and_pow2_minus_1: "x AND (push_bit k 1 - 1) = take_bit k x" for x :: "'a::len word"
  by (simp add: take_bit_eq_mask mask_eq_exp_minus_1)

lemma sub_take_bit: "x - take_bit k x = push_bit k (drop_bit k x)" for x :: "'a::len word"
  using bits_ident [of k x] by (simp add: algebra_simps)

lemma lane0_via_int32: "uint_of_int32 (memcpy_int32x4 blk ! 0) = lane0 blk"
  by (simp add: uint_of_int32_def memcpy_int32x4_def lane0_def)

lemma bind_f_Inr [simp]: "bind_f (Inr v) f = f v"
  by (simp add: bind_f_def)

lemma bind_f_Inl [simp]: "bind_f (Inl e) f = Inl e"
  by (simp add: bind_f_def)

lemma for_loop_append:
  "for_loop (xs @ ys) body s = bind_f (for_loop xs body s) (for_loop ys body)"
  by (induction xs arbitrary: s) (auto split: sum.splits)

text \<open>
  A loop over \<open>0 ..< k\<close> whose state after \<open>i\<close> iterations is \<open>F i\<close> ends in \<open>F k\<close>.
\<close>

lemma for_loop_closed_form:
  assumes "\<And>i. i < k \<Longrightarrow> body i (F i) = Inr (F (Suc i))"
  shows "for_loop [0 ..< k] body (F 0) = Inr (F k)"
  using assms
proof (induction k)
  case 0
  show ?case by simp
next
  case (Suc k)
  then have "for_loop [0 ..< k] body (F 0) = Inr (F k)" by simp
  then show ?case using Suc.prems [of k] by (simp add: for_loop_append)
qed

section \<open>Arithmetic modulo powers of two\<close>

lemma take_bit_word_diff:
  "take_bit k (take_bit k a - take_bit k b) = take_bit k (a - b)" for a b :: "'a::len word"
  by transfer (simp add: take_bit_diff min_def)

lemma take_bit_word_add:
  "take_bit k (take_bit k a + take_bit k b) = take_bit k (a + b)" for a b :: "'a::len word"
  by transfer (simp add: take_bit_add min_def)

lemma take_bit_word_diff_l:
  "take_bit k (take_bit k a - b) = take_bit k (a - b)" for a b :: "'a::len word"
  using take_bit_word_diff [of k a b] take_bit_word_diff [of k "take_bit k a" b] by simp

lemma take_bit_word_add_l:
  "take_bit k (take_bit k a + b) = take_bit k (a + b)" for a b :: "'a::len word"
  using take_bit_word_add [of k a b] take_bit_word_add [of k "take_bit k a" b] by simp

lemma nat_aux: 
  fixes h s :: nat
  assumes "d \<le> w"
  shows "((h * 2 ^ d) mod 2 ^ w + s) mod 2 ^ w div 2 ^ d = ((h + s div 2 ^ d) mod 2 ^ w) mod 2 ^ (w - d)"
proof -
  have "((h * 2 ^ d) mod 2 ^ w + s) mod 2 ^ w div 2 ^ d = ((2 ^ d * h + s) mod 2 ^ (d + (w - d))) div 2 ^ d"
    using assms by (simp add: mod_add_left_eq mult.commute)
  also have "\<dots> = ((2 ^ d * h + s) div 2 ^ d) mod 2 ^ (w - d)"
    by (simp only: div_exp_mod_exp_eq)
  also have "\<dots> = (h + s div 2 ^ d) mod 2 ^ (w - d)"
    by simp
  also have "\<dots> = ((h + s div 2 ^ d) mod 2 ^ w) mod 2 ^ (w - d)"
    by (simp add: mod_mod_cancel le_imp_power_dvd)
  finally show ?thesis .
qed

lemma drop_bit_push_bit_add:
  "drop_bit d (push_bit d h + s) = take_bit (LENGTH('a) - d) (h + drop_bit d s)" for h s :: "'a::len word"
proof (cases "d \<le> LENGTH('a)")
  case False
  then show ?thesis by (simp add: drop_bit_eq_zero_iff_not_bit_last) 
next
  case True
  have "unat (drop_bit d (push_bit d h + s)) = unat (take_bit (LENGTH('a) - d) (h + drop_bit d s))"
    using True
    by (simp only: unat_drop_bit_eq unat_word_ariths unsigned_push_bit_eq unsigned_take_bit_eq)
      (simp add: take_bit_eq_mod push_bit_eq_mult drop_bit_eq_div nat_aux)
  then show ?thesis by (simp add: word_eq_iff_unsigned [where ?'a = nat])
qed


lemma finalize_core:
  fixes C S R :: "'a::len word"
  assumes dl: "d + l \<le> LENGTH('a)"
  shows "take_bit l (take_bit l (drop_bit d (take_bit (d + l)
            (take_bit (d + l) (C + S) - take_bit d (take_bit (d + l) C))) + R)
            - R - drop_bit d (take_bit (d + l) C))
         = take_bit l (drop_bit d S)"
proof -
  define hC where "hC = drop_bit d C"
  have k: "take_bit d (take_bit (d + l) C) = take_bit d C"
    by simp
  have "take_bit (d + l) (take_bit (d + l) (C + S) - take_bit d C)
        = take_bit (d + l) (C + S - take_bit d C)"
    by (rule take_bit_word_diff_l)
  also have "C + S - take_bit d C = push_bit d hC + S"
    using sub_take_bit [of C d] by (simp add: hC_def algebra_simps)
  finally have "drop_bit d (take_bit (d + l) (take_bit (d + l) (C + S) - take_bit d C))
                = drop_bit d (take_bit (d + l) (push_bit d hC + S))"
    by simp
  also have "\<dots> = take_bit l (drop_bit d (push_bit d hC + S))"
    by (simp add: drop_bit_take_bit)
  also have "\<dots> = take_bit l (hC + drop_bit d S)"
  proof -
    have "l \<le> LENGTH('a) - d" using dl by simp
    then show ?thesis by (simp add: drop_bit_push_bit_add min_def)
  qed
  finally have X: "drop_bit d (take_bit (d + l) (take_bit (d + l) (C + S) - take_bit d (take_bit (d + l) C)))
                   = take_bit l (hC + drop_bit d S)"
    by (simp only: k)
  have h: "drop_bit d (take_bit (d + l) C) = take_bit l hC"
    by (simp add: drop_bit_take_bit hC_def)
  have "take_bit l (take_bit l (take_bit l (hC + drop_bit d S) + R) - R - take_bit l hC)
        = take_bit l (take_bit l (take_bit l (hC + drop_bit d S) + R) - (R + take_bit l hC))"
    by (simp add: algebra_simps)
  also have "\<dots> = take_bit l (take_bit l (hC + drop_bit d S) + R - (R + take_bit l hC))"
    by (rule take_bit_word_diff_l)
  also have "\<dots> = take_bit l (take_bit l (hC + drop_bit d S) - take_bit l hC)"
    by simp
  also have "\<dots> = take_bit l (hC + drop_bit d S - hC)"
    by (rule take_bit_word_diff)
  also have "\<dots> = take_bit l (drop_bit d S)"
    by simp
  finally show ?thesis
    by (simp only: X h)
qed

section \<open>The loops compute their closed forms\<close>

lemma prefix_update:
  "i < m \<Longrightarrow> (map f [0 ..< i] @ replicate (m - i) z)[i := v] = map f [0 ..< i] @ v # replicate (m - Suc i) z"
  by (cases "m - i") (simp_all add: list_update_append Suc_diff_Suc)

lemma replicate_update_same: "(replicate m z)[i := z] = replicate m z"
  by (cases "i < m") (simp_all add: list_eq_iff_nth_eq nth_list_update)

lemma request_body_step:
  assumes "2 * unat (n P) \<le> length dest" and "unat (n P) \<le> length b_bar"
    and "\<forall>i<unat (n P). unat (ctr * n P + of_nat i) < length Sc_uint"
    and "i < unat (n P)"
  shows "request_body P Sc_uint b_bar dest ctr i (req_state P Sc_uint b_bar dest ctr i)
         = Inr (req_state P Sc_uint b_bar dest ctr (Suc i))"
proof -
  have d: "2 * i < length dest" "2 * i + 1 < length dest" using assms by auto
  have b: "i < length b_bar" using assms by auto
  have s: "unat (ctr * n P + of_nat i) < length Sc_uint" using assms by auto
  show ?thesis
    unfolding request_body_def req_state_def
    using d b s assms(4)
    by (simp add: read_at_def write_at_def Let_def prefix_update nth_append
        replicate_update_same req_a_def req_c_def req_e1_def)
qed

lemma request_loop_closed_form:
  assumes "2 * unat (n P) \<le> length dest" and "unat (n P) \<le> length b_bar"
    and "\<forall>i<unat (n P). unat (ctr * n P + of_nat i) < length Sc_uint"
    and "k \<le> unat (n P)"
  shows "for_loop [0 ..< k] (request_body P Sc_uint b_bar dest ctr)
           (replicate (unat (n P)) 0, replicate (unat (n P)) 0, replicate (unat (n P)) 0, 0)
         = Inr (req_state P Sc_uint b_bar dest ctr k)"
proof -
  have "for_loop [0 ..< k] (request_body P Sc_uint b_bar dest ctr) (req_state P Sc_uint b_bar dest ctr 0)
        = Inr (req_state P Sc_uint b_bar dest ctr k)"
    using assms by (intro for_loop_closed_form request_body_step) auto
  then show ?thesis by (simp add: req_state_def)
qed

lemma request_closed_form:
  assumes "2 * unat (n P) \<le> length dest" and "unat (n P) \<le> length b_bar"
    and "\<forall>i<unat (n P). unat (ctr * n P + of_nat i) < length Sc_uint"
    and "unat ctr < length bpr"
  shows "request P Sc_uint b_bar bpr dest ctr
         = Inr (map (req_a P dest) [0 ..< unat (n P)], replicate (unat (n P)) 0,
                map (req_e1 P Sc_uint b_bar dest ctr) [0 ..< unat (n P)],
                req_c_sum P Sc_uint b_bar ctr,
                req_bpr_bar P (req_c_sum P Sc_uint b_bar ctr) (bpr ! unat ctr))"
  unfolding request_def
  using assms(4)
  by (simp add: request_loop_closed_form [OF assms(1-3) order_refl] req_state_def read_at_def
      Let_def req_c_sum_def req_bpr_bar_def)

lemma blind_eval_body_step:
  assumes "unat (n P) \<le> length e_0" and "unat (n P) \<le> length e_1" and "unat (n P) \<le> length sk"
    and "\<forall>i<unat (n P). unat (ctr * n P + of_nat i) < length Rs_r"
    and "i < unat (n P)"
  shows "blind_eval_body P Rs_r sk e_0 e_1 ctr i (be_state P Rs_r sk e_0 e_1 ctr i)
         = Inr (be_state P Rs_r sk e_0 e_1 ctr (Suc i))"
proof -
  have r: "unat (ctr * n P + of_nat i) < length Rs_r" using assms by auto
  have l: "i < length e_0" "i < length e_1" "i < length sk" using assms by auto
  show ?thesis
    unfolding blind_eval_body_def be_state_def
    using r l assms(5)
    by (simp add: read_at_def write_at_def Let_def prefix_update nth_append
        lane0_via_int32 be_atil_def)
qed

lemma blind_eval_loop_closed_form:
  assumes "unat (n P) \<le> length e_0" and "unat (n P) \<le> length e_1" and "unat (n P) \<le> length sk"
    and "\<forall>i<unat (n P). unat (ctr * n P + of_nat i) < length Rs_r"
    and "k \<le> unat (n P)"
  shows "for_loop [0 ..< k] (blind_eval_body P Rs_r sk e_0 e_1 ctr)
           (replicate (unat (n P)) (0, 0), 0)
         = Inr (be_state P Rs_r sk e_0 e_1 ctr k)"
proof -
  have "for_loop [0 ..< k] (blind_eval_body P Rs_r sk e_0 e_1 ctr) (be_state P Rs_r sk e_0 e_1 ctr 0)
        = Inr (be_state P Rs_r sk e_0 e_1 ctr k)"
    using assms by (intro for_loop_closed_form blind_eval_body_step) auto
  then show ?thesis by (simp add: be_state_def)
qed

lemma y_body_step:
  assumes "unat ctr < length Ss"
    and "\<forall>i<unat (delta P). unat ((of_nat i - bpr_bar) AND (delta P - 1)) < length (Ss ! unat ctr)"
    and "i < unat (delta P)"
  shows "y_body P Ss bpr_bar atil_sum ctr i
           (map (be_y P Ss bpr_bar atil_sum ctr) [0 ..< i] @ replicate (unat (delta P) - i) 0)
         = Inr (map (be_y P Ss bpr_bar atil_sum ctr) [0 ..< Suc i] @ replicate (unat (delta P) - Suc i) 0)"
proof -
  have c: "unat ((of_nat i - bpr_bar) AND (delta P - 1)) < length (Ss ! unat ctr)"
    using assms by auto
  show ?thesis
    unfolding y_body_def
    using c assms(1,3)
    by (simp add: read_at_def write_at_def Let_def prefix_update lane0_via_int32 be_y_def)
qed

lemma y_loop_closed_form:
  assumes "unat ctr < length Ss"
    and "\<forall>i<unat (delta P). unat ((of_nat i - bpr_bar) AND (delta P - 1)) < length (Ss ! unat ctr)"
  shows "for_loop [0 ..< unat (delta P)] (y_body P Ss bpr_bar atil_sum ctr) (replicate (unat (delta P)) 0)
         = Inr (map (be_y P Ss bpr_bar atil_sum ctr) [0 ..< unat (delta P)])"
proof -
  let ?F = "\<lambda>i. map (be_y P Ss bpr_bar atil_sum ctr) [0 ..< i] @ replicate (unat (delta P) - i) 0"
  have "for_loop [0 ..< unat (delta P)] (y_body P Ss bpr_bar atil_sum ctr) (?F 0) = Inr (?F (unat (delta P)))"
    using assms by (intro for_loop_closed_form [where F = ?F] y_body_step) auto
  then show ?thesis by simp
qed

lemma blind_eval_closed_form:
  assumes "unat (n P) \<le> length e_0" and "unat (n P) \<le> length e_1" and "unat (n P) \<le> length sk"
    and "\<forall>i<unat (n P). unat (ctr * n P + of_nat i) < length Rs_r"
    and "unat ctr < length Ss"
    and "\<forall>i<unat (delta P). unat ((of_nat i - bpr_bar) AND (delta P - 1)) < length (Ss ! unat ctr)"
  shows "blind_eval P Rs_r Ss sk e_0 e_1 bpr_bar ctr
         = Inr (map (be_y P Ss bpr_bar (be_atil_sum P Rs_r sk e_0 e_1 ctr) ctr) [0 ..< unat (delta P)])"
  unfolding blind_eval_def
  by (simp add: blind_eval_loop_closed_form [OF assms(1-4) order_refl] be_state_def Let_def
      y_loop_closed_form [OF assms(5,6)] be_atil_sum_def)

section \<open>Masks, sizes and slot indices\<close>

lemma and_q: "x AND (q P - 1) = take_bit (unat (lg_q P)) x"
  unfolding q_def by (rule and_pow2_minus_1)

lemma and_delta: "x AND (delta P - 1) = take_bit (unat (lg_delta P)) x"
  unfolding delta_def by (rule and_pow2_minus_1)

lemma and_p: "x AND (p P - 1) = take_bit (unat (lg_p P)) x"
  unfolding p_def by (rule and_pow2_minus_1)

lemma temp_val_shift: "temp_val P c_sum = drop_bit (unat (lg_delta P)) c_sum"
  unfolding temp_val_def delta_def and_pow2_minus_1 sub_take_bit
  by (rule bit_word_eqI) (auto simp add: bit_simps dest: bit_imp_le_length)

lemma consistentD:
  assumes "consistent P"
  shows "unat (lg_delta P) + unat (lg_p P) = unat (lg_q P)" and "unat (lg_q P) < 32"
    and "unat (lg_delta P) < 32" and "unat (lg_p P) < 32"
    and "unat (n P) * unat (tau P) < 2 ^ 31"
  using assms by (auto simp add: consistent_def)

lemma unat_pow2:
  assumes "k < 32"
  shows "unat (push_bit k 1 :: u32) = 2 ^ k"
proof -
  have lt: "(2::nat) ^ k < 2 ^ 32"
    using assms by (simp only: power_strict_increasing_iff) 
  have "unat (of_nat (2 ^ k) :: u32) = 2 ^ k mod 2 ^ 32"
    by (simp only: unat_of_nat) simp
  also have "\<dots> = 2 ^ k"
    using lt by (simp only: mod_less)
  finally show ?thesis by simp
qed

lemma map_nth_fun: "map (\<lambda>j. g (xs ! j)) [0 ..< length xs] = map g xs"
proof -
  have "map (\<lambda>j. g (xs ! j)) [0 ..< length xs] = map g (map ((!) xs) [0 ..< length xs])"
    by (simp only: map_map o_def)
  then show ?thesis by (simp only: map_nth)
qed

lemma unat_delta: "consistent P \<Longrightarrow> unat (delta P) = 2 ^ unat (lg_delta P)"
  unfolding delta_def by (rule unat_pow2) (rule consistentD)

lemma unat_n_tau: "consistent P \<Longrightarrow> unat (n P * tau P) = unat (n P) * unat (tau P)"
  using consistentD(5) [of P] unat_mult_lem [of "n P" "tau P"] by simp

lemma slot_index:
  assumes "consistent P" and "unat ctr < unat (tau P)" and "i < unat (n P)"
  shows "unat (ctr * n P + of_nat i) = unat ctr * unat (n P) + i"
    and "unat ctr * unat (n P) + i < unat (n P) * unat (tau P)"
proof -
  have "unat ctr * unat (n P) + i < Suc (unat ctr) * unat (n P)"
    using assms(3) by simp
  also have "\<dots> \<le> unat (tau P) * unat (n P)"
    using assms(2) by (intro mult_le_mono1) simp
  finally show b: "unat ctr * unat (n P) + i < unat (n P) * unat (tau P)"
    by (simp add: mult.commute)
  with consistentD(5) [OF assms(1)] have "unat ctr * unat (n P) + i < 2 ^ 32"
    by simp
  then have "(unat ctr * unat (n P) + i) mod 2 ^ 32 = unat ctr * unat (n P) + i"
    by simp
  moreover have "unat (ctr * n P + of_nat i) = (unat ctr * unat (n P) + i) mod 2 ^ 32"
    by (simp only: unat_word_ariths unat_of_nat mod_simps) simp
  ultimately show "unat (ctr * n P + of_nat i) = unat ctr * unat (n P) + i"
    by simp
qed

lemma parse_Sc_step:
  assumes "i < length Sc" and "length Sc = m"
  shows "parse_Sc_body Sc i (map (\<lambda>j. (lane0 (fst (Sc ! j)), lane0 (snd (Sc ! j)))) [0 ..< i] @ replicate (m - i) (0, 0))
         = Inr (map (\<lambda>j. (lane0 (fst (Sc ! j)), lane0 (snd (Sc ! j)))) [0 ..< Suc i] @ replicate (m - Suc i) (0, 0))"
  unfolding parse_Sc_body_def using assms
  by (simp add: read_at_def write_at_def Let_def prefix_update lane0_via_int32)

lemma parse_Sc_closed_form:
  assumes "length Sc = unat (n P * tau P)"
  shows "parse_Sc P Sc = Inr (map (\<lambda>pr. (lane0 (fst pr), lane0 (snd pr))) Sc)"
proof -
  let ?F = "\<lambda>i. map (\<lambda>j. (lane0 (fst (Sc ! j)), lane0 (snd (Sc ! j)))) [0 ..< i] @ replicate (length Sc - i) (0, 0)"
  have "for_loop [0 ..< length Sc] (parse_Sc_body Sc) (?F 0) = Inr (?F (length Sc))"
    by (intro for_loop_closed_form [where F = ?F] parse_Sc_step) auto
  moreover have "map (\<lambda>j. (lane0 (fst (Sc ! j)), lane0 (snd (Sc ! j)))) [0 ..< length Sc]
                 = map (\<lambda>pr. (lane0 (fst pr), lane0 (snd pr))) Sc"
    by (rule map_nth_fun)
  ultimately show ?thesis
    using assms by (simp add: parse_Sc_def)
qed

lemma finalize_closed_form:
  assumes "unat ctr < length Rc_r" and "unat (c_sum AND (delta P - 1)) < length y"
  shows "finalize P Rc_r y c_sum ctr
         = Inr ((y ! unat (c_sum AND (delta P - 1)) - lane0 (Rc_r ! unat ctr) - temp_val P c_sum) AND (p P - 1))"
  unfolding finalize_def using assms
  by (simp add: read_at_def Let_def lane0_via_int32)

lemma sanity_body_step:
  assumes "i < length sk" and "i < length a"
  shows "sanity_body sk a i (\<Sum>j<i. if sk ! j then a ! j else 0)
         = Inr (\<Sum>j<Suc i. if sk ! j then a ! j else 0)"
  unfolding sanity_body_def using assms by (simp add: read_at_def)

lemma sanity_check_closed_form:
  assumes "unat (n P) \<le> length sk" and "unat (n P) \<le> length a"
  shows "sanity_check P sk a
         = Inr (drop_bit (unat (lg_delta P)) (\<Sum>j<unat (n P). if sk ! j then a ! j else 0) AND (p P - 1))"
proof -
  let ?F = "\<lambda>i. (\<Sum>j<i. if sk ! j then a ! j else 0 :: u32)"
  have "for_loop [0 ..< unat (n P)] (sanity_body sk a) (?F 0) = Inr (?F (unat (n P)))"
    using assms by (intro for_loop_closed_form [where F = ?F] sanity_body_step) auto
  then show ?thesis by (simp add: sanity_check_def)
qed


lemma uint_lt_pow2: "unat w < 2 ^ k \<Longrightarrow> uint w < 2 ^ k"
proof -
  assume "unat w < 2 ^ k"
  then have "int (unat w) < int (2 ^ k)" by (simp only: of_nat_less_iff)
  then show ?thesis by (simp only: of_nat_power of_nat_numeral flip: uint_nat)
qed

lemma unat_eq_of_uint_eq: "uint v = uint w \<Longrightarrow> unat v = unat w"
  by (simp only: unat_eq_nat_uint)

lemma uint_take_bit: "uint (take_bit k x) = uint x mod 2 ^ k"
  by (simp only: unsigned_take_bit_eq) (simp only: take_bit_eq_mod)

lemma uint_take_bit_diff:
  fixes x y :: "'a::len word"
  assumes "k \<le> LENGTH('a)"
  shows "uint (take_bit k (x - y)) = (uint x - uint y) mod 2 ^ k"
proof -
  have "uint (take_bit k (x - y)) = ((uint x - uint y) mod 2 ^ LENGTH('a)) mod 2 ^ k"
    by (simp only: uint_take_bit uint_word_ariths)
  also have "\<dots> = (uint x - uint y) mod 2 ^ k"
    using assms by (simp only: mod_mod_cancel le_imp_power_dvd)
  finally show ?thesis .
qed

lemma uint_take_bit_add:
  fixes x y :: "'a::len word"
  assumes "k \<le> LENGTH('a)"
  shows "uint (take_bit k (x + y)) = (uint x + uint y) mod 2 ^ k"
proof -
  have "uint (take_bit k (x + y)) = ((uint x + uint y) mod 2 ^ LENGTH('a)) mod 2 ^ k"
    by (simp only: uint_take_bit uint_word_ariths)
  also have "\<dots> = (uint x + uint y) mod 2 ^ k"
    using assms by (simp only: mod_mod_cancel le_imp_power_dvd)
  finally show ?thesis .
qed

lemma ucast_delta_mask:
  assumes "unat (lg_delta P) \<le> 32"
  shows "(w :: u64) AND ucast (delta P - 1) = take_bit (unat (lg_delta P)) w"
proof -
  have "delta P - 1 = mask (unat (lg_delta P))"
    by (simp add: delta_def mask_eq_exp_minus_1)
  then have "(ucast (delta P - 1) :: u64) = mask (unat (lg_delta P))"
    using assms by (simp add: ucast_mask_eq min_def)
  then show ?thesis by (simp add: take_bit_eq_mask)
qed

lemma uint_req_bpr_bar:
  assumes "unat (lg_delta P) \<le> 32"
  shows "uint (req_bpr_bar P c_sum bpr_ctr)
         = (uint c_sum mod 2 ^ unat (lg_delta P) - uint bpr_ctr) mod 2 ^ unat (lg_delta P)"
proof -
  let ?D = "unat (lg_delta P)"
  have "req_bpr_bar P c_sum bpr_ctr = ucast (take_bit ?D ((ucast (take_bit ?D c_sum) :: u64) - bpr_ctr))"
    by (simp only: req_bpr_bar_def and_delta ucast_delta_mask [OF assms])
  then have "uint (req_bpr_bar P c_sum bpr_ctr)
             = take_bit 32 (uint (take_bit ?D ((ucast (take_bit ?D c_sum) :: u64) - bpr_ctr)))"
    by (simp add: unsigned_ucast_eq)
  also have "\<dots> = uint (take_bit ?D ((ucast (take_bit ?D c_sum) :: u64) - bpr_ctr))"
    using assms by (simp add: unsigned_take_bit_eq min_def)
  also have "\<dots> = (uint (ucast (take_bit ?D c_sum) :: u64) - uint bpr_ctr) mod 2 ^ ?D"
    using assms by (intro uint_take_bit_diff) simp
  also have "uint (ucast (take_bit ?D c_sum) :: u64) = uint c_sum mod 2 ^ ?D"
  proof -
    have "uint (take_bit ?D c_sum) < 2 ^ 64"
      using uint_lt2p [of "take_bit ?D c_sum"] by simp
    then have "uint (ucast (take_bit ?D c_sum) :: u64) = uint (take_bit ?D c_sum)"
      by (simp add: unsigned_ucast_eq take_bit_int_eq_self)
    then show ?thesis by (simp only: uint_take_bit)
  qed
  finally show ?thesis .
qed

lemma bpr_index:
  assumes "unat (lg_delta P) \<le> 32" and "unat bpr_ctr < 2 ^ unat (lg_delta P)"
  shows "unat (take_bit (unat (lg_delta P))
           (take_bit (unat (lg_delta P)) c_sum - req_bpr_bar P c_sum bpr_ctr)) = unat bpr_ctr"
proof -
  let ?D = "unat (lg_delta P)"
  have "uint (take_bit ?D (take_bit ?D c_sum - req_bpr_bar P c_sum bpr_ctr))
        = (uint (take_bit ?D c_sum) - uint (req_bpr_bar P c_sum bpr_ctr)) mod 2 ^ ?D"
    using assms(1) by (intro uint_take_bit_diff) simp
  also have "\<dots> = (uint c_sum mod 2 ^ ?D - (uint c_sum mod 2 ^ ?D - uint bpr_ctr) mod 2 ^ ?D) mod 2 ^ ?D"
    by (simp only: uint_req_bpr_bar [OF assms(1)] uint_take_bit)
  also have "\<dots> = (uint c_sum mod 2 ^ ?D - (uint c_sum mod 2 ^ ?D - uint bpr_ctr)) mod 2 ^ ?D"
    by (simp only: mod_diff_right_eq)
  also have "\<dots> = uint bpr_ctr mod 2 ^ ?D"
    by simp
  also have "\<dots> = uint bpr_ctr"
    using uint_lt_pow2 [OF assms(2)] by (intro mod_pos_pos_trivial) simp_all
  finally show ?thesis
    by (rule unat_eq_of_uint_eq)
qed

lemma take_bit_word_sum:
  fixes f g :: "nat \<Rightarrow> 'a::len word"
  assumes "\<And>j. j < k \<Longrightarrow> f j = take_bit m (g j)"
  shows "take_bit m (\<Sum>j<k. f j) = take_bit m (\<Sum>j<k. g j)"
  using assms
proof (induction k)
  case 0
  show ?case by simp
next
  case (Suc k)
  have "take_bit m (\<Sum>j<Suc k. f j) = take_bit m (take_bit m (\<Sum>j<k. f j) + take_bit m (f k))"
    by (simp add: take_bit_word_add)
  also have "\<dots> = take_bit m (take_bit m (\<Sum>j<k. g j) + take_bit m (g k))"
    using Suc by simp
  also have "\<dots> = take_bit m (\<Sum>j<Suc k. g j)"
    by (simp add: take_bit_word_add)
  finally show ?case .
qed


section \<open>The value one round computes\<close>

lemma atil_selected:
  assumes cons: "consistent P" and ctr: "unat ctr < unat (tau P)"
    and len: "length Sc = unat (n P * tau P)"
    and Sc_uint: "Sc_uint = map (\<lambda>pr. (lane0 (fst pr), lane0 (snd pr))) Sc"
    and ot: "\<forall>i<unat (n P). lane0 (Rs_r ! (unat ctr * unat (n P) + i))
                = lane0 (sel2 (Sc ! (unat ctr * unat (n P) + i)) (b ! i))"
    and bbar: "\<forall>i<unat (n P). b_bar ! i = (b ! i \<noteq> sk ! i)"
    and e_0: "e_0 = replicate (unat (n P)) 0"
    and e_1: "e_1 = map (req_e1 P Sc_uint b_bar dest ctr) [0 ..< unat (n P)]"
    and j: "j < unat (n P)"
  shows "sel2 (be_atil P Rs_r e_0 e_1 ctr j) (sk ! j)
         = take_bit (unat (lg_q P))
             (req_c P Sc_uint b_bar ctr j + (if sk ! j then req_a P dest j else 0))"
proof -
  let ?Q = "unat (lg_q P)"
  let ?k = "unat (ctr * n P + of_nat j)"
  have k: "?k = unat ctr * unat (n P) + j" "?k < length Sc"
    using slot_index [OF cons ctr j] len unat_n_tau [OF cons] by simp_all
  have R: "lane0 (Rs_r ! ?k) = sel2 (Sc_uint ! ?k) (b ! j)"
    using ot j k by (simp add: Sc_uint sel2_def)
  have bb: "b_bar ! j = (b ! j \<noteq> sk ! j)"
    using bbar j by simp
  show ?thesis
  proof (cases "sk ! j")
    case True
    then have nb: "(\<not> b_bar ! j) = b ! j" using bb by simp
    have "sel2 (be_atil P Rs_r e_0 e_1 ctr j) (sk ! j)
          = take_bit ?Q (take_bit ?Q (req_a P dest j + req_c P Sc_uint b_bar ctr j + lane0 (Rs_r ! ?k))
                          - lane0 (Rs_r ! ?k))"
      using True j by (simp add: sel2_def be_atil_def e_1 req_e1_def and_q nb R)
    also have "\<dots> = take_bit ?Q (req_a P dest j + req_c P Sc_uint b_bar ctr j + lane0 (Rs_r ! ?k)
                          - lane0 (Rs_r ! ?k))"
      by (rule take_bit_word_diff_l)
    finally show ?thesis using True by (simp add: add.commute)
  next
    case False
    then have nb: "b_bar ! j = b ! j" using bb by simp
    have "sel2 (be_atil P Rs_r e_0 e_1 ctr j) (sk ! j) = take_bit ?Q (0 - lane0 (Rs_r ! ?k))"
      using False j by (simp add: sel2_def be_atil_def e_0 and_q)
    also have "\<dots> = req_c P Sc_uint b_bar ctr j"
      by (simp add: req_c_def and_q nb R)
    also have "\<dots> = take_bit ?Q (req_c P Sc_uint b_bar ctr j)"
      by (simp add: req_c_def and_q)
    finally show ?thesis using False by simp
  qed
qed


lemma take_bit_delta_less:
  assumes "consistent P"
  shows "unat (take_bit (unat (lg_delta P)) (x :: u32)) < unat (delta P)"
proof -
  have "unat (take_bit (unat (lg_delta P)) x) = unat x mod 2 ^ unat (lg_delta P)"
    by (simp only: unsigned_take_bit_eq) (simp only: take_bit_eq_mod)
  then show ?thesis by (simp add: unat_delta [OF assms])
qed

lemma eval_round_value:
  assumes cons: "consistent P" and ctr: "unat ctr < unat (tau P)"
    and len_Sc: "length Sc = unat (n P * tau P)"
    and len_Rs_r: "length Rs_r = unat (n P * tau P)"
    and len_bpr: "length bpr = unat (tau P)"
    and len_Rc_r: "length Rc_r = unat (tau P)"
    and len_Ss: "length Ss = unat (tau P)"
    and len_row: "length (Ss ! unat ctr) = unat (delta P)"
    and len_sk: "length sk = unat (n P)"
    and len_b_bar: "length b_bar = unat (n P)"
    and len_dest: "length dest = 2 * unat (n P)"
    and Sc_uint: "Sc_uint = map (\<lambda>pr. (lane0 (fst pr), lane0 (snd pr))) Sc"
    and ot1: "\<forall>i<unat (n P). lane0 (Rs_r ! (unat ctr * unat (n P) + i))
                = lane0 (sel2 (Sc ! (unat ctr * unat (n P) + i)) (b ! i))"
    and ot2: "lane0 (Ss ! unat ctr ! unat (bpr ! unat ctr)) = lane0 (Rc_r ! unat ctr)"
    and bbar: "\<forall>i<unat (n P). b_bar ! i = (b ! i \<noteq> sk ! i)"
    and bpr: "unat (bpr ! unat ctr) < unat (delta P)"
  shows "eval_round P Sc_uint Rs_r Ss Rc_r bpr sk b_bar dest ctr
         = Inr (map (req_a P dest) [0 ..< unat (n P)],
                take_bit (unat (lg_p P)) (drop_bit (unat (lg_delta P))
                  (\<Sum>j<unat (n P). if sk ! j then req_a P dest j else 0)))"
proof -
  let ?N = "unat (n P)" and ?Q = "unat (lg_q P)" and ?D = "unat (lg_delta P)" and ?L = "unat (lg_p P)"
  define a where "a = map (req_a P dest) [0 ..< ?N]"
  define e_0 where "e_0 = replicate ?N (0 :: u32)"
  define e_1 where "e_1 = map (req_e1 P Sc_uint b_bar dest ctr) [0 ..< ?N]"
  define C where "C = (\<Sum>j<?N. req_c P Sc_uint b_bar ctr j)"
  define S where "S = (\<Sum>j<?N. if sk ! j then req_a P dest j else 0)"
  define c_sum where "c_sum = take_bit ?Q C"
  define bpr_bar where "bpr_bar = req_bpr_bar P c_sum (bpr ! unat ctr)"
  define atil_sum where "atil_sum = be_atil_sum P Rs_r sk e_0 e_1 ctr"
  define y where "y = map (be_y P Ss bpr_bar atil_sum ctr) [0 ..< unat (delta P)]"
  have QDL: "?D + ?L = ?Q" "?Q < 32" "?D < 32"
    using consistentD [OF cons] by simp_all
  have slots: "\<forall>i<?N. unat (ctr * n P + of_nat i) < unat (n P * tau P)"
    using slot_index [OF cons ctr] unat_n_tau [OF cons] by simp
  have c_sum: "req_c_sum P Sc_uint b_bar ctr = c_sum"
    by (simp add: req_c_sum_def c_sum_def C_def and_q)
  have len_Sc_uint: "length Sc_uint = unat (n P * tau P)"
    by (simp add: Sc_uint len_Sc)
  have rq: "request P Sc_uint b_bar bpr dest ctr = Inr (a, e_0, e_1, c_sum, bpr_bar)"
    using request_closed_form [of P dest b_bar ctr Sc_uint bpr] slots ctr
    by (simp add: len_dest len_b_bar len_bpr len_Sc_uint a_def e_0_def e_1_def c_sum bpr_bar_def)
  have col: "\<forall>i<unat (delta P). unat ((of_nat i - bpr_bar) AND (delta P - 1)) < length (Ss ! unat ctr)"
    by (simp add: and_delta len_row take_bit_delta_less [OF cons])
  have be: "blind_eval P Rs_r Ss sk e_0 e_1 bpr_bar ctr = Inr y"
    using blind_eval_closed_form [of P e_0 e_1 sk ctr Rs_r Ss bpr_bar] slots ctr col
    by (simp add: e_0_def e_1_def len_sk len_Rs_r len_Ss y_def atil_sum_def)
  have k: "unat (c_sum AND (delta P - 1)) < unat (delta P)"
    by (simp add: and_delta take_bit_delta_less [OF cons])
  have fin: "finalize P Rc_r y c_sum ctr
             = Inr ((y ! unat (c_sum AND (delta P - 1)) - lane0 (Rc_r ! unat ctr) - temp_val P c_sum) AND (p P - 1))"
    using finalize_closed_form [of ctr Rc_r c_sum P y] ctr k
    by (simp add: len_Rc_r y_def)
  have atil: "atil_sum = take_bit ?Q (C + S)"
  proof -
    have "take_bit ?Q (\<Sum>j<?N. sel2 (be_atil P Rs_r e_0 e_1 ctr j) (sk ! j))
          = take_bit ?Q (\<Sum>j<?N. req_c P Sc_uint b_bar ctr j + (if sk ! j then req_a P dest j else 0))"
      by (rule take_bit_word_sum)
        (rule atil_selected [OF cons ctr len_Sc Sc_uint ot1 bbar e_0_def e_1_def])
    then show ?thesis
      by (simp add: atil_sum_def be_atil_sum_def and_q C_def S_def sum.distrib)
  qed
  have idx: "unat (take_bit ?D (take_bit ?D c_sum - bpr_bar)) = unat (bpr ! unat ctr)"
    unfolding bpr_bar_def
    using QDL bpr by (intro bpr_index) (simp_all add: unat_delta [OF cons])
  have yk: "y ! unat (c_sum AND (delta P - 1))
            = take_bit ?L (drop_bit ?D (take_bit ?Q (atil_sum - take_bit ?D c_sum))
                + lane0 (Rc_r ! unat ctr))"
    using k by (simp add: y_def be_y_def and_delta and_q and_p idx ot2)
  have "(y ! unat (c_sum AND (delta P - 1)) - lane0 (Rc_r ! unat ctr) - temp_val P c_sum) AND (p P - 1)
        = take_bit ?L (take_bit ?L (drop_bit ?D (take_bit ?Q
              (take_bit ?Q (C + S) - take_bit ?D c_sum)) + lane0 (Rc_r ! unat ctr))
            - lane0 (Rc_r ! unat ctr) - drop_bit ?D c_sum)"
    by (simp only: yk and_p temp_val_shift atil)
  also have "\<dots> = take_bit ?L (take_bit ?L (drop_bit ?D (take_bit (?D + ?L)
              (take_bit (?D + ?L) (C + S) - take_bit ?D (take_bit (?D + ?L) C))) + lane0 (Rc_r ! unat ctr))
            - lane0 (Rc_r ! unat ctr) - drop_bit ?D (take_bit (?D + ?L) C))"
    by (simp only: c_sum_def QDL(1))
  also have "\<dots> = take_bit ?L (drop_bit ?D S)"
    using QDL by (intro finalize_core) simp
  finally show ?thesis
    by (simp add: eval_round_def rq be fin a_def S_def)
qed

section \<open>Unsigned values of the computed words\<close>

lemma uint_be16:
  fixes d0 d1 :: u8
  shows "uint (push_bit 8 (ucast d0 :: u32) OR ucast d1) = 256 * uint d0 + uint d1"
proof -
  have "push_bit 8 (ucast d0 :: u32) OR ucast d1 = push_bit 8 (ucast d0 :: u32) + ucast d1"
    by (rule disjunctive_add_eq_or [symmetric])
      (auto simp add: bit_eq_iff bit_simps dest: bit_imp_le_length)
  moreover have "uint (push_bit 8 (ucast d0 :: u32) + ucast d1) = 256 * uint d0 + uint d1"
  proof -
    have b: "uint d0 < 256" "uint d1 < 256" "0 \<le> uint d0" "0 \<le> uint d1"
      using uint_lt2p [of d0] uint_lt2p [of d1] by simp_all
    have u: "uint (ucast d0 :: u32) = uint d0" "uint (ucast d1 :: u32) = uint d1"
      using b by (simp_all add: unsigned_ucast_eq take_bit_int_eq_self)
    have "uint (push_bit 8 (ucast d0 :: u32)) = take_bit LENGTH(32) (push_bit 8 (uint (ucast d0 :: u32)))"
      by (rule unsigned_push_bit_eq)
    also have "\<dots> = 256 * uint d0"
      using b by (simp add: u push_bit_eq_mult take_bit_int_eq_self)
    finally have "uint (push_bit 8 (ucast d0 :: u32)) = 256 * uint d0" .
    then have "uint (push_bit 8 (ucast d0 :: u32) + ucast d1) = (256 * uint d0 + uint d1) mod 2 ^ 32"
      by (simp only: uint_word_ariths u) simp
    then show ?thesis
      using b by simp
  qed
  ultimately show ?thesis by simp
qed

lemma uint_req_a:
  "uint (req_a P dest i)
   = (256 * uint (dest ! (2 * i)) + uint (dest ! (2 * i + 1))) mod 2 ^ unat (lg_q P)"
  by (simp only: req_a_def and_q uint_take_bit uint_be16)

lemma uint_sum_mod:
  fixes f :: "nat \<Rightarrow> 'a::len word"
  shows "uint (\<Sum>j<k. f j) = (\<Sum>j<k. uint (f j)) mod 2 ^ LENGTH('a)"
proof (induction k)
  case 0
  show ?case by simp
next
  case (Suc k)
  have "uint (\<Sum>j<Suc k. f j) = (uint (\<Sum>j<k. f j) + uint (f k)) mod 2 ^ LENGTH('a)"
    by (simp add: uint_word_ariths)
  also have "\<dots> = ((\<Sum>j<k. uint (f j)) mod 2 ^ LENGTH('a) + uint (f k)) mod 2 ^ LENGTH('a)"
    by (simp only: Suc.IH)
  also have "\<dots> = (\<Sum>j<Suc k. uint (f j)) mod 2 ^ LENGTH('a)"
    by (simp add: mod_add_left_eq)
  finally show ?case .
qed

lemma div_mod_pow2_cancel:
  fixes X :: int
  assumes "d + l \<le> w"
  shows "((X mod 2 ^ w) div 2 ^ d) mod 2 ^ l = (X div 2 ^ d) mod 2 ^ l"
proof -
  have "((X mod 2 ^ w) div 2 ^ d) mod 2 ^ l = ((X mod 2 ^ w) mod 2 ^ (d + l)) div 2 ^ d"
    by (simp only: div_exp_mod_exp_eq)
  also have "\<dots> = (X mod 2 ^ (d + l)) div 2 ^ d"
    using assms by (simp only: mod_mod_cancel le_imp_power_dvd)
  also have "\<dots> = (X div 2 ^ d) mod 2 ^ l"
    by (simp only: div_exp_mod_exp_eq)
  finally show ?thesis .
qed

lemma uint_drop_bit: "uint (drop_bit d w) = uint w div 2 ^ d"
  by (simp only: unsigned_drop_bit_eq) (simp add: drop_bit_eq_div take_bit_int_eq_self)

lemma uint_rounded_sum:
  fixes f :: "nat \<Rightarrow> u32"
  assumes "d + l \<le> 32"
  shows "uint (take_bit l (drop_bit d (\<Sum>j<k. f j))) = ((\<Sum>j<k. uint (f j)) div 2 ^ d) mod 2 ^ l"
proof -
  have "uint (take_bit l (drop_bit d (\<Sum>j<k. f j))) = (((\<Sum>j<k. uint (f j)) mod 2 ^ 32) div 2 ^ d) mod 2 ^ l"
    by (simp only: uint_take_bit uint_drop_bit uint_sum_mod) simp
  then show ?thesis
    by (simp only: div_mod_pow2_cancel [OF assms])
qed

lemma sum_selected:
  fixes f :: "nat \<Rightarrow> u32"
  shows "(\<Sum>j<k. uint (if c j then f j else 0)) = (\<Sum>j | j < k \<and> c j. uint (f j))"
proof -
  have "(\<Sum>j<k. uint (if c j then f j else 0)) = (\<Sum>j\<in>{..<k}. if c j then uint (f j) else 0)"
    by (intro sum.cong) simp_all
  also have "\<dots> = sum (\<lambda>j. uint (f j)) {j \<in> {..<k}. c j}"
    by (rule sum.inter_filter [symmetric]) simp
  finally show ?thesis by simp
qed

lemma uint_pow2: "k < 32 \<Longrightarrow> uint (push_bit k 1 :: u32) = 2 ^ k"
  using unat_pow2 [of k] by (simp only: uint_nat) simp

lemma uint_q: "consistent P \<Longrightarrow> uint (q P) = 2 ^ unat (lg_q P)"
  unfolding q_def by (rule uint_pow2) (rule consistentD)

lemma uint_delta: "consistent P \<Longrightarrow> uint (delta P) = 2 ^ unat (lg_delta P)"
  unfolding delta_def by (rule uint_pow2) (rule consistentD)

lemma uint_p: "consistent P \<Longrightarrow> uint (p P) = 2 ^ unat (lg_p P)"
  unfolding p_def by (rule uint_pow2) (rule consistentD)

section \<open>Correctness of the online round\<close>

text \<open>
  Claim C1. For a consistent configuration, a round index \<open>ctr < num_rounds \<le> tau\<close>,
  arrays of the sizes \<^verbatim>\<open>main\<close> allocates, every key \<open>sk\<close> and every preprocessing
  material that satisfies the OT relations on lane 0
  (\<open>lane0 (Rs_r[ctr*n+i]) = lane0 (Sc[ctr*n+i][b[i]])\<close> for \<open>i < n\<close>,
  \<open>lane0 (Ss[ctr][bpr[ctr]]) = lane0 (Rc_r[ctr])\<close>, \<open>b_bar[i] = b[i] XOR sk[i]\<close>,
  \<open>bpr[ctr] < delta\<close>), Request, BlindEval and Finalize run without fault and the
  client's \<open>z\<close> is \<open>(floor ((sum of the a[i] with sk[i] = 1) / delta)) mod p\<close>, the sum
  taken over the integers, where \<open>a\<close> is the vector Request parsed from the random
  oracle's bytes. The program's own reference evaluator returns the same \<open>z\<close>.
\<close>

theorem oprf_correct:
  assumes cons: "consistent P"
    and ctr: "unat ctr < unat (num_rounds P)" and rounds: "unat (num_rounds P) \<le> unat (tau P)"
    and len_b: "length b = unat (n P * tau P)"
    and len_Rs_r: "length Rs_r = unat (n P * tau P)"
    and len_Sc: "length Sc = unat (n P * tau P)"
    and len_bpr: "length bpr = unat (tau P)"
    and len_Rc_r: "length Rc_r = unat (tau P)"
    and len_Ss: "length Ss = unat (tau P)"
    and len_row: "length (Ss ! unat ctr) = unat (delta P)"
    and len_sk: "length sk = unat (n P)"
    and len_b_bar: "length b_bar = unat (n P)"
    and len_dest: "length dest = 2 * unat (n P)"
    and ot1: "\<forall>i<unat (n P). lane0 (Rs_r ! (unat ctr * unat (n P) + i))
                = lane0 (sel2 (Sc ! (unat ctr * unat (n P) + i)) (b ! i))"
    and ot2: "lane0 (Ss ! unat ctr ! unat (bpr ! unat ctr)) = lane0 (Rc_r ! unat ctr)"
    and bbar: "\<forall>i<unat (n P). b_bar ! i = (b ! i \<noteq> sk ! i)"
    and bpr: "unat (bpr ! unat ctr) < unat (delta P)"
  shows "\<exists>Sc_uint a z.
           parse_Sc P Sc = Inr Sc_uint \<and>
           eval_round P Sc_uint Rs_r Ss Rc_r bpr sk b_bar dest ctr = Inr (a, z) \<and>
           length a = unat (n P) \<and>
           (\<forall>i<unat (n P). uint (a ! i)
              = (256 * uint (dest ! (2 * i)) + uint (dest ! (2 * i + 1))) mod uint (q P)) \<and>
           uint z = ((\<Sum>i | i < unat (n P) \<and> sk ! i. uint (a ! i)) div uint (delta P)) mod uint (p P) \<and>
           sanity_check P sk a = Inr z"
proof -
  let ?N = "unat (n P)" and ?D = "unat (lg_delta P)" and ?L = "unat (lg_p P)"
  define Sc_uint where "Sc_uint = map (\<lambda>pr. (lane0 (fst pr), lane0 (snd pr))) Sc"
  define a where "a = map (req_a P dest) [0 ..< ?N]"
  define z where "z = take_bit ?L (drop_bit ?D (\<Sum>j<?N. if sk ! j then req_a P dest j else 0))"
  have ctr': "unat ctr < unat (tau P)" using ctr rounds by simp
  have DL: "?D + ?L \<le> 32" using consistentD [OF cons] by simp
  have ps: "parse_Sc P Sc = Inr Sc_uint"
    unfolding Sc_uint_def using len_Sc by (rule parse_Sc_closed_form)
  have ev: "eval_round P Sc_uint Rs_r Ss Rc_r bpr sk b_bar dest ctr = Inr (a, z)"
    unfolding a_def z_def
    by (rule eval_round_value [OF cons ctr' len_Sc len_Rs_r len_bpr len_Rc_r len_Ss len_row
          len_sk len_b_bar len_dest Sc_uint_def ot1 ot2 bbar bpr])
  have ai: "\<And>i. i < ?N \<Longrightarrow> a ! i = req_a P dest i"
    by (simp add: a_def)
  have sums: "(\<Sum>j<?N. if sk ! j then req_a P dest j else 0) = (\<Sum>j<?N. if sk ! j then a ! j else 0)"
    by (intro sum.cong) (simp_all add: ai)
  have a_val: "\<forall>i<?N. uint (a ! i)
                 = (256 * uint (dest ! (2 * i)) + uint (dest ! (2 * i + 1))) mod uint (q P)"
    by (simp add: ai uint_req_a uint_q [OF cons])
  have "uint z = ((\<Sum>j<?N. uint (if sk ! j then a ! j else 0)) div 2 ^ ?D) mod 2 ^ ?L"
    unfolding z_def sums using DL by (rule uint_rounded_sum)
  then have z_val: "uint z = ((\<Sum>i | i < ?N \<and> sk ! i. uint (a ! i)) div uint (delta P)) mod uint (p P)"
    by (simp only: sum_selected uint_delta [OF cons] uint_p [OF cons])
  have la: "length a = ?N"
    by (simp add: a_def)
  have "sanity_check P sk a
        = Inr (drop_bit ?D (\<Sum>j<?N. if sk ! j then a ! j else 0) AND (p P - 1))"
    by (rule sanity_check_closed_form) (simp_all add: len_sk la)
  then have sc: "sanity_check P sk a = Inr z"
    by (simp only: z_def sums and_p)
  have "parse_Sc P Sc = Inr Sc_uint \<and>
        eval_round P Sc_uint Rs_r Ss Rc_r bpr sk b_bar dest ctr = Inr (a, z) \<and>
        length a = unat (n P) \<and>
        (\<forall>i<unat (n P). uint (a ! i)
           = (256 * uint (dest ! (2 * i)) + uint (dest ! (2 * i + 1))) mod uint (q P)) \<and>
        uint z = ((\<Sum>i | i < unat (n P) \<and> sk ! i. uint (a ! i)) div uint (delta P)) mod uint (p P) \<and>
        sanity_check P sk a = Inr z"
    using ps ev la a_val z_val sc by (intro conjI)
  then show ?thesis
    by (intro exI)
qed

lemma all_less_2: "(\<forall>i<2::nat. Q i) \<longleftrightarrow> Q 0 \<and> Q 1"
  by (auto simp add: less_2_cases_iff)

theorem oprf_correct_witness:
  "\<exists>Sc_uint a z.
     parse_Sc ex_P ex_Sc = Inr Sc_uint \<and>
     eval_round ex_P Sc_uint ex_Rs_r ex_Ss ex_Rc_r ex_bpr ex_sk ex_b_bar ex_dest 0 = Inr (a, z) \<and>
     length a = unat (n ex_P) \<and>
     (\<forall>i<unat (n ex_P). uint (a ! i)
        = (256 * uint (ex_dest ! (2 * i)) + uint (ex_dest ! (2 * i + 1))) mod uint (q ex_P)) \<and>
     uint z = ((\<Sum>i | i < unat (n ex_P) \<and> ex_sk ! i. uint (a ! i)) div uint (delta ex_P)) mod uint (p ex_P) \<and>
     sanity_check ex_P ex_sk a = Inr z"
proof -
  have n2: "unat (n ex_P) = 2" by (simp add: ex_P_def)
  have cons: "consistent ex_P"
    by (simp add: consistent_def ex_P_def lg_delta_def lg_p_def)
  have ctr: "unat (0::u32) < unat (num_rounds ex_P)" by (simp add: ex_P_def)
  have rounds: "unat (num_rounds ex_P) \<le> unat (tau ex_P)" by (simp add: ex_P_def)
  have len_b: "length ex_b = unat (n ex_P * tau ex_P)" by (simp add: ex_P_def ex_b_def)
  have len_Rs_r: "length ex_Rs_r = unat (n ex_P * tau ex_P)" by (simp add: ex_P_def ex_Rs_r_def)
  have len_Sc: "length ex_Sc = unat (n ex_P * tau ex_P)" by (simp add: ex_P_def ex_Sc_def)
  have len_bpr: "length ex_bpr = unat (tau ex_P)" by (simp add: ex_P_def ex_bpr_def)
  have len_Rc_r: "length ex_Rc_r = unat (tau ex_P)" by (simp add: ex_P_def ex_Rc_r_def)
  have len_Ss: "length ex_Ss = unat (tau ex_P)" by (simp add: ex_P_def ex_Ss_def)
  have len_row: "length (ex_Ss ! unat (0::u32)) = unat (delta ex_P)"
    by (simp add: ex_P_def ex_Ss_def delta_def lg_delta_def)
  have len_sk: "length ex_sk = unat (n ex_P)" by (simp add: ex_P_def ex_sk_def)
  have len_b_bar: "length ex_b_bar = unat (n ex_P)" by (simp add: ex_P_def ex_b_bar_def)
  have len_dest: "length ex_dest = 2 * unat (n ex_P)" by (simp add: ex_P_def ex_dest_def)
  have ot1: "\<forall>i<unat (n ex_P). lane0 (ex_Rs_r ! (unat (0::u32) * unat (n ex_P) + i))
          = lane0 (sel2 (ex_Sc ! (unat (0::u32) * unat (n ex_P) + i)) (ex_b ! i))"
    by (simp add: n2 all_less_2 ex_Rs_r_def ex_Sc_def ex_b_def sel2_def lane0_def)
  have bbar: "\<forall>i<unat (n ex_P). ex_b_bar ! i = (ex_b ! i \<noteq> ex_sk ! i)"
    by (simp add: n2 all_less_2 ex_b_bar_def ex_b_def ex_sk_def)
  have ot2: "lane0 (ex_Ss ! unat (0::u32) ! unat (ex_bpr ! unat (0::u32))) = lane0 (ex_Rc_r ! unat (0::u32))"
    by (simp add: ex_Ss_def ex_bpr_def ex_Rc_r_def)
  have bpr: "unat (ex_bpr ! unat (0::u32)) < unat (delta ex_P)"
    by (simp add: ex_P_def ex_bpr_def delta_def lg_delta_def)
  show ?thesis
    by (rule oprf_correct [OF cons ctr rounds len_b len_Rs_r len_Sc len_bpr len_Rc_r len_Ss len_row
          len_sk len_b_bar len_dest ot1 ot2 bbar bpr])
qed

section \<open>Request: parsing the random oracle's output\<close>

text \<open>
  Claim C2, as stated, fails. It reads \<open>a[i]\<close> as the 16-bit integer with low byte
  \<open>dest[2i]\<close> and high byte \<open>dest[2i+1]\<close>. On the bytes \<open>12 34 AB CD\<close>
  (hexadecimal) Request computes \<open>a[0] = 0x234 = 564\<close>, the little-endian reading
  gives \<open>0x412 = 1042\<close>.
\<close>

theorem request_not_little_endian:
  "request ex_P ex_Sc_uint ex_b_bar ex_bpr ex_dest 0
     = Inr ([564, 3021], [0, 0], [570, 3023], 4090, 5)
   \<and> spec_a_little_endian ex_P ex_dest 0 = 1042
   \<and> [564, 3021 :: u32] ! 0 \<noteq> spec_a_little_endian ex_P ex_dest 0"
proof -
  have r: "request ex_P ex_Sc_uint ex_b_bar ex_bpr ex_dest 0
           = Inr ([564, 3021], [0, 0], [570, 3023], 4090, 5)"
    by code_simp
  have s: "spec_a_little_endian ex_P ex_dest 0 = 1042"
    by (simp add: spec_a_little_endian_def ex_dest_def ex_P_def q_def)
  show ?thesis using r s by simp
qed

text \<open>
  Claim C2, amended. The \<open>2n\<close> bytes are parsed as \<open>n\<close> big-endian 16-bit integers:
  for every \<open>i < n\<close>, \<open>a[i]\<close> is the integer with high byte \<open>dest[2i]\<close> and low byte
  \<open>dest[2i+1]\<close>, reduced modulo \<open>q\<close>.
\<close>

theorem request_parses_big_endian:
  assumes cons: "consistent P" and ctr: "unat ctr < unat (tau P)"
    and len_Sc_uint: "length Sc_uint = unat (n P * tau P)"
    and len_b_bar: "length b_bar = unat (n P)"
    and len_bpr: "length bpr = unat (tau P)"
    and len_dest: "length dest = 2 * unat (n P)"
  shows "\<exists>a e_0 e_1 c_sum bpr_bar.
           request P Sc_uint b_bar bpr dest ctr = Inr (a, e_0, e_1, c_sum, bpr_bar) \<and>
           length a = unat (n P) \<and>
           (\<forall>i<unat (n P). uint (a ! i)
              = (256 * uint (dest ! (2 * i)) + uint (dest ! (2 * i + 1))) mod uint (q P))"
proof -
  let ?N = "unat (n P)"
  define a where "a = map (req_a P dest) [0 ..< ?N]"
  have slots: "\<forall>i<?N. unat (ctr * n P + of_nat i) < length Sc_uint"
    using slot_index [OF cons ctr] unat_n_tau [OF cons] len_Sc_uint by simp
  have rq: "request P Sc_uint b_bar bpr dest ctr
            = Inr (a, replicate ?N 0, map (req_e1 P Sc_uint b_bar dest ctr) [0 ..< ?N],
                   req_c_sum P Sc_uint b_bar ctr,
                   req_bpr_bar P (req_c_sum P Sc_uint b_bar ctr) (bpr ! unat ctr))"
    unfolding a_def using slots ctr
    by (intro request_closed_form) (simp_all add: len_dest len_b_bar len_bpr)
  have la: "length a = ?N" by (simp add: a_def)
  have a_val: "\<forall>i<?N. uint (a ! i)
                 = (256 * uint (dest ! (2 * i)) + uint (dest ! (2 * i + 1))) mod uint (q P)"
    by (simp add: a_def uint_req_a uint_q [OF cons])
  from rq la a_val show ?thesis by blast
qed

theorem request_parses_big_endian_witness:
  "\<exists>a e_0 e_1 c_sum bpr_bar.
     request ex_P ex_Sc_uint ex_b_bar ex_bpr ex_dest 0 = Inr (a, e_0, e_1, c_sum, bpr_bar) \<and>
     length a = unat (n ex_P) \<and>
     (\<forall>i<unat (n ex_P). uint (a ! i)
        = (256 * uint (ex_dest ! (2 * i)) + uint (ex_dest ! (2 * i + 1))) mod uint (q ex_P))"
proof -
  have cons: "consistent ex_P"
    by (simp add: consistent_def ex_P_def lg_delta_def lg_p_def)
  have ctr: "unat (0::u32) < unat (tau ex_P)" by (simp add: ex_P_def)
  have len_Sc_uint: "length ex_Sc_uint = unat (n ex_P * tau ex_P)" by (simp add: ex_P_def ex_Sc_uint_def)
  have len_b_bar: "length ex_b_bar = unat (n ex_P)" by (simp add: ex_P_def ex_b_bar_def)
  have len_bpr: "length ex_bpr = unat (tau ex_P)" by (simp add: ex_P_def ex_bpr_def)
  have len_dest: "length ex_dest = 2 * unat (n ex_P)" by (simp add: ex_P_def ex_dest_def)
  show ?thesis
    by (rule request_parses_big_endian [OF cons ctr len_Sc_uint len_b_bar len_bpr len_dest])
qed

section \<open>Request: the message\<close>

lemma uint_take_bit_add3:
  fixes x y w :: "'a::len word"
  assumes "k \<le> LENGTH('a)"
  shows "uint (take_bit k (x + y + w)) = (uint x + uint y + uint w) mod 2 ^ k"
proof -
  have "uint (take_bit k (x + y + w)) = (uint (x + y) + uint w) mod 2 ^ k"
    using assms by (rule uint_take_bit_add)
  also have "\<dots> = (uint (x + y) mod 2 ^ k + uint w) mod 2 ^ k"
    by (simp only: mod_add_left_eq)
  also have "uint (x + y) mod 2 ^ k = (uint x + uint y) mod 2 ^ k"
    using uint_take_bit_add [OF assms, of x y] by (simp only: uint_take_bit)
  also have "((uint x + uint y) mod 2 ^ k + uint w) mod 2 ^ k = (uint x + uint y + uint w) mod 2 ^ k"
    by (simp only: mod_add_left_eq)
  finally show ?thesis .
qed

lemma uint_take_bit_sum:
  fixes f :: "nat \<Rightarrow> 'a::len word"
  assumes "k \<le> LENGTH('a)"
  shows "uint (take_bit k (\<Sum>j<m. f j)) = (\<Sum>j<m. uint (f j)) mod 2 ^ k"
proof -
  have "uint (take_bit k (\<Sum>j<m. f j)) = ((\<Sum>j<m. uint (f j)) mod 2 ^ LENGTH('a)) mod 2 ^ k"
    by (simp only: uint_take_bit uint_sum_mod)
  also have "\<dots> = (\<Sum>j<m. uint (f j)) mod 2 ^ k"
    using assms by (simp only: mod_mod_cancel le_imp_power_dvd)
  finally show ?thesis .
qed

text \<open>
  Claim C5. In Request for round \<open>ctr\<close>, \<open>e_0[i] = 0\<close> for every \<open>i < n\<close>; with
  \<open>c_i = (e_0[i] - lane0 (Sc[ctr*n+i][b_bar[i]])) mod q\<close>,
  \<open>e_1[i] = (a[i] + c_i + lane0 (Sc[ctr*n+i][1 - b_bar[i]])) mod q\<close>,
  \<open>c_sum = (sum of the c_i) mod q\<close> and
  \<open>bpr_bar = ((c_sum mod delta) - bpr[ctr]) mod delta\<close>; and what BlindEval receives
  from Request is the triple \<open>(e_0, e_1, bpr_bar)\<close>: the rest of the round is a
  function of it (with \<open>c_sum\<close> and \<open>a\<close> kept by the client for Finalize).
\<close>

theorem request_message:
  assumes cons: "consistent P" and ctr: "unat ctr < unat (tau P)"
    and len_Sc: "length Sc = unat (n P * tau P)"
    and len_b_bar: "length b_bar = unat (n P)"
    and len_bpr: "length bpr = unat (tau P)"
    and len_dest: "length dest = 2 * unat (n P)"
  shows "\<exists>Sc_uint a e_0 e_1 c_sum bpr_bar.
           parse_Sc P Sc = Inr Sc_uint \<and>
           request P Sc_uint b_bar bpr dest ctr = Inr (a, e_0, e_1, c_sum, bpr_bar) \<and>
           length e_0 = unat (n P) \<and> length e_1 = unat (n P) \<and>
           (\<forall>i<unat (n P).
              e_0 ! i = 0 \<and>
              uint (e_1 ! i)
                = (uint (a ! i)
                   + (uint (e_0 ! i) - uint (lane0 (sel2 (Sc ! (unat ctr * unat (n P) + i)) (b_bar ! i))))
                       mod uint (q P)
                   + uint (lane0 (sel2 (Sc ! (unat ctr * unat (n P) + i)) (\<not> b_bar ! i))))
                  mod uint (q P)) \<and>
           uint c_sum
             = (\<Sum>i<unat (n P).
                  (uint (e_0 ! i) - uint (lane0 (sel2 (Sc ! (unat ctr * unat (n P) + i)) (b_bar ! i))))
                    mod uint (q P))
               mod uint (q P) \<and>
           uint bpr_bar = (uint c_sum mod uint (delta P) - uint (bpr ! unat ctr)) mod uint (delta P) \<and>
           eval_round P Sc_uint Rs_r Ss Rc_r bpr sk b_bar dest ctr
             = bind_f (blind_eval P Rs_r Ss sk e_0 e_1 bpr_bar ctr) (\<lambda>y.
               bind_f (finalize P Rc_r y c_sum ctr) (\<lambda>z. Inr (a, z)))"
proof -
  let ?N = "unat (n P)" and ?Q = "unat (lg_q P)" and ?D = "unat (lg_delta P)"
  define Sc_uint where "Sc_uint = map (\<lambda>pr. (lane0 (fst pr), lane0 (snd pr))) Sc"
  define a where "a = map (req_a P dest) [0 ..< ?N]"
  define e_0 where "e_0 = replicate ?N (0 :: u32)"
  define e_1 where "e_1 = map (req_e1 P Sc_uint b_bar dest ctr) [0 ..< ?N]"
  define c_sum where "c_sum = req_c_sum P Sc_uint b_bar ctr"
  define bpr_bar where "bpr_bar = req_bpr_bar P c_sum (bpr ! unat ctr)"
  define c where "c = (\<lambda>i. (0 - uint (lane0 (sel2 (Sc ! (unat ctr * ?N + i)) (b_bar ! i)))) mod 2 ^ ?Q)"
  have Q: "?Q \<le> 32" "?D \<le> 32" using consistentD [OF cons] by simp_all
  have ps: "parse_Sc P Sc = Inr Sc_uint"
    unfolding Sc_uint_def using len_Sc by (rule parse_Sc_closed_form)
  have slot: "\<And>i. i < ?N \<Longrightarrow> unat (ctr * n P + of_nat i) = unat ctr * ?N + i"
    and slot_lt: "\<And>i. i < ?N \<Longrightarrow> unat ctr * ?N + i < length Sc"
    using slot_index [OF cons ctr] unat_n_tau [OF cons] len_Sc by simp_all
  have slots: "\<forall>i<?N. unat (ctr * n P + of_nat i) < length Sc_uint"
    using slot slot_lt by (simp add: Sc_uint_def)
  have rq: "request P Sc_uint b_bar bpr dest ctr = Inr (a, e_0, e_1, c_sum, bpr_bar)"
    unfolding a_def e_0_def e_1_def c_sum_def bpr_bar_def using slots ctr
    by (intro request_closed_form) (simp_all add: len_dest len_b_bar len_bpr)
  have sel: "\<And>i v. i < ?N \<Longrightarrow>
               sel2 (Sc_uint ! unat (ctr * n P + of_nat i)) v = lane0 (sel2 (Sc ! (unat ctr * ?N + i)) v)"
    unfolding Sc_uint_def using slot slot_lt by (simp add: sel2_def)
  have c_val: "\<And>i. i < ?N \<Longrightarrow> uint (req_c P Sc_uint b_bar ctr i) = c i"
  proof -
    fix i assume i: "i < ?N"
    have "uint (req_c P Sc_uint b_bar ctr i)
          = (uint (0 :: u32) - uint (lane0 (sel2 (Sc ! (unat ctr * ?N + i)) (b_bar ! i)))) mod 2 ^ ?Q"
      unfolding req_c_def and_q sel [OF i] using Q(1) by (intro uint_take_bit_diff) simp
    then show "uint (req_c P Sc_uint b_bar ctr i) = c i"
      by (simp add: c_def)
  qed
  have e1_val: "\<And>i. i < ?N \<Longrightarrow>
      uint (e_1 ! i) = (uint (a ! i) + c i + uint (lane0 (sel2 (Sc ! (unat ctr * ?N + i)) (\<not> b_bar ! i)))) mod 2 ^ ?Q"
  proof -
    fix i assume i: "i < ?N"
    have "uint (req_e1 P Sc_uint b_bar dest ctr i)
          = (uint (req_a P dest i) + uint (req_c P Sc_uint b_bar ctr i)
             + uint (lane0 (sel2 (Sc ! (unat ctr * ?N + i)) (\<not> b_bar ! i)))) mod 2 ^ ?Q"
      unfolding req_e1_def and_q sel [OF i] using Q(1) by (intro uint_take_bit_add3) simp
    then show "uint (e_1 ! i) = (uint (a ! i) + c i + uint (lane0 (sel2 (Sc ! (unat ctr * ?N + i)) (\<not> b_bar ! i)))) mod 2 ^ ?Q"
      using i by (simp add: e_1_def a_def c_val)
  qed
  have "uint c_sum = (\<Sum>i<?N. uint (req_c P Sc_uint b_bar ctr i)) mod 2 ^ ?Q"
    unfolding c_sum_def req_c_sum_def and_q using Q(1) by (intro uint_take_bit_sum) simp
  also have "(\<Sum>i<?N. uint (req_c P Sc_uint b_bar ctr i)) = (\<Sum>i<?N. c i)"
    by (intro sum.cong) (simp_all add: c_val)
  finally have c_sum_val: "uint c_sum = (\<Sum>i<?N. c i) mod 2 ^ ?Q" .
  have bpr_val: "uint bpr_bar = (uint c_sum mod 2 ^ ?D - uint (bpr ! unat ctr)) mod 2 ^ ?D"
    unfolding bpr_bar_def using Q(2) by (rule uint_req_bpr_bar)
  have ev: "eval_round P Sc_uint Rs_r Ss Rc_r bpr sk b_bar dest ctr
            = bind_f (blind_eval P Rs_r Ss sk e_0 e_1 bpr_bar ctr) (\<lambda>y.
              bind_f (finalize P Rc_r y c_sum ctr) (\<lambda>z. Inr (a, z)))"
    by (simp add: eval_round_def rq)
  have e0: "\<forall>i<?N. e_0 ! i = 0" by (simp add: e_0_def)
  have lens: "length e_0 = ?N" "length e_1 = ?N" by (simp_all add: e_0_def e_1_def)
  have body: "\<forall>i<?N. e_0 ! i = 0 \<and>
      uint (e_1 ! i)
        = (uint (a ! i)
           + (uint (e_0 ! i) - uint (lane0 (sel2 (Sc ! (unat ctr * ?N + i)) (b_bar ! i)))) mod uint (q P)
           + uint (lane0 (sel2 (Sc ! (unat ctr * ?N + i)) (\<not> b_bar ! i))))
          mod uint (q P)"
    using e0 e1_val by (simp add: uint_q [OF cons] c_def)
  have csum: "uint c_sum
      = (\<Sum>i<?N. (uint (e_0 ! i) - uint (lane0 (sel2 (Sc ! (unat ctr * ?N + i)) (b_bar ! i)))) mod uint (q P))
        mod uint (q P)"
    using c_sum_val e0 by (simp add: uint_q [OF cons] c_def)
  have bprb: "uint bpr_bar = (uint c_sum mod uint (delta P) - uint (bpr ! unat ctr)) mod uint (delta P)"
    using bpr_val by (simp only: uint_delta [OF cons])
  have "parse_Sc P Sc = Inr Sc_uint \<and>
        request P Sc_uint b_bar bpr dest ctr = Inr (a, e_0, e_1, c_sum, bpr_bar) \<and>
        length e_0 = ?N \<and> length e_1 = ?N \<and>
        (\<forall>i<?N. e_0 ! i = 0 \<and>
           uint (e_1 ! i)
             = (uint (a ! i)
                + (uint (e_0 ! i) - uint (lane0 (sel2 (Sc ! (unat ctr * ?N + i)) (b_bar ! i)))) mod uint (q P)
                + uint (lane0 (sel2 (Sc ! (unat ctr * ?N + i)) (\<not> b_bar ! i))))
               mod uint (q P)) \<and>
        uint c_sum
          = (\<Sum>i<?N. (uint (e_0 ! i) - uint (lane0 (sel2 (Sc ! (unat ctr * ?N + i)) (b_bar ! i)))) mod uint (q P))
            mod uint (q P) \<and>
        uint bpr_bar = (uint c_sum mod uint (delta P) - uint (bpr ! unat ctr)) mod uint (delta P) \<and>
        eval_round P Sc_uint Rs_r Ss Rc_r bpr sk b_bar dest ctr
          = bind_f (blind_eval P Rs_r Ss sk e_0 e_1 bpr_bar ctr) (\<lambda>y.
            bind_f (finalize P Rc_r y c_sum ctr) (\<lambda>z. Inr (a, z)))"
    using ps rq lens body csum bprb ev by (intro conjI)
  then show ?thesis by (intro exI)
qed


theorem request_message_witness:
  "\<exists>Sc_uint a e_0 e_1 c_sum bpr_bar.
     parse_Sc ex_P ex_Sc = Inr Sc_uint \<and>
     request ex_P Sc_uint ex_b_bar ex_bpr ex_dest 0 = Inr (a, e_0, e_1, c_sum, bpr_bar) \<and>
     length e_0 = unat (n ex_P) \<and> length e_1 = unat (n ex_P) \<and>
     (\<forall>i<unat (n ex_P).
        e_0 ! i = 0 \<and>
        uint (e_1 ! i)
          = (uint (a ! i)
             + (uint (e_0 ! i) - uint (lane0 (sel2 (ex_Sc ! (unat (0::u32) * unat (n ex_P) + i)) (ex_b_bar ! i))))
                 mod uint (q ex_P)
             + uint (lane0 (sel2 (ex_Sc ! (unat (0::u32) * unat (n ex_P) + i)) (\<not> ex_b_bar ! i))))
            mod uint (q ex_P)) \<and>
     uint c_sum
       = (\<Sum>i<unat (n ex_P).
            (uint (e_0 ! i) - uint (lane0 (sel2 (ex_Sc ! (unat (0::u32) * unat (n ex_P) + i)) (ex_b_bar ! i))))
              mod uint (q ex_P))
         mod uint (q ex_P) \<and>
     uint bpr_bar = (uint c_sum mod uint (delta ex_P) - uint (ex_bpr ! unat (0::u32))) mod uint (delta ex_P) \<and>
     eval_round ex_P Sc_uint ex_Rs_r ex_Ss ex_Rc_r ex_bpr ex_sk ex_b_bar ex_dest 0
       = bind_f (blind_eval ex_P ex_Rs_r ex_Ss ex_sk e_0 e_1 bpr_bar 0) (\<lambda>y.
         bind_f (finalize ex_P ex_Rc_r y c_sum 0) (\<lambda>z. Inr (a, z)))"
proof -
  have cons: "consistent ex_P"
    by (simp add: consistent_def ex_P_def lg_delta_def lg_p_def)
  have ctr: "unat (0::u32) < unat (tau ex_P)" by (simp add: ex_P_def)
  have len_Sc: "length ex_Sc = unat (n ex_P * tau ex_P)" by (simp add: ex_P_def ex_Sc_def)
  have len_b_bar: "length ex_b_bar = unat (n ex_P)" by (simp add: ex_P_def ex_b_bar_def)
  have len_bpr: "length ex_bpr = unat (tau ex_P)" by (simp add: ex_P_def ex_bpr_def)
  have len_dest: "length ex_dest = 2 * unat (n ex_P)" by (simp add: ex_P_def ex_dest_def)
  show ?thesis
    by (rule request_message [OF cons ctr len_Sc len_b_bar len_bpr len_dest])
qed

section \<open>BlindEval: the reply\<close>

lemma uint_of_nat_small: "k < 2 ^ 32 \<Longrightarrow> uint (of_nat k :: u32) = int k"
  by (simp add: unsigned_of_nat take_bit_nat_eq_self)

lemma uint_be_y:
  assumes cons: "consistent P" and k: "k < unat (delta P)"
  shows "uint (be_y P Ss bpr_bar atil_sum ctr k)
         = (((uint atil_sum - int k) mod uint (q P)) div uint (delta P)
            + uint (lane0 (Ss ! unat ctr ! nat ((int k - uint bpr_bar) mod uint (delta P)))))
           mod uint (p P)"
proof -
  let ?Q = "unat (lg_q P)" and ?D = "unat (lg_delta P)" and ?L = "unat (lg_p P)"
  have Q: "?Q \<le> 32" "?D \<le> 32" "?L \<le> 32" "?D < 32"
    using consistentD [OF cons] by simp_all
  have Q': "?Q \<le> LENGTH(32)" "?D \<le> LENGTH(32)"
    using Q by simp_all
  have "k < 2 ^ ?D" using k by (simp add: unat_delta [OF cons])
  also have "(2::nat) ^ ?D < 2 ^ 32" using Q(4) by (simp only: power_strict_increasing_iff)
  finally have k32: "uint (of_nat k :: u32) = int k" by (rule uint_of_nat_small)
  have "uint (take_bit ?D (of_nat k - bpr_bar)) = (int k - uint bpr_bar) mod 2 ^ ?D"
    by (simp only: uint_take_bit_diff [OF Q'(2)] k32)
  then have idx: "unat (take_bit ?D (of_nat k - bpr_bar)) = nat ((int k - uint bpr_bar) mod 2 ^ ?D)"
    by (simp only: unat_eq_nat_uint)
  have "uint (be_y P Ss bpr_bar atil_sum ctr k)
        = (uint (drop_bit ?D (take_bit ?Q (atil_sum - of_nat k)))
           + uint (lane0 (Ss ! unat ctr ! unat (take_bit ?D (of_nat k - bpr_bar))))) mod 2 ^ ?L"
    unfolding be_y_def and_q and_delta and_p using Q(3) by (intro uint_take_bit_add) simp
  also have "uint (drop_bit ?D (take_bit ?Q (atil_sum - of_nat k)))
             = ((uint atil_sum - int k) mod 2 ^ ?Q) div 2 ^ ?D"
    using uint_take_bit_diff [OF Q'(1), of atil_sum "of_nat k"]
    by (simp only: uint_drop_bit k32)
  finally show ?thesis
    by (simp only: idx uint_q [OF cons] uint_delta [OF cons] uint_p [OF cons])
qed

text \<open>
  Claim C6. In BlindEval for round \<open>ctr\<close>, for every \<open>i < n\<close>,
  \<open>atil[i][0] = (e_0[i] - lane0 (Rs_r[ctr*n+i])) mod q\<close> and
  \<open>atil[i][1] = (e_1[i] - lane0 (Rs_r[ctr*n+i])) mod q\<close>;
  \<open>atil_sum = (sum of the atil[i][sk[i]]) mod q\<close>; and for every \<open>k < delta\<close>,
  \<open>y[k] = (floor (((atil_sum - k) mod q) / delta) + lane0 (Ss[ctr][(k - bpr_bar) mod delta])) mod p\<close>.
  The reply has exactly \<open>delta\<close> entries, each below \<open>p\<close>.
\<close>

theorem blind_eval_reply:
  assumes cons: "consistent P" and ctr: "unat ctr < unat (tau P)"
    and len_Rs_r: "length Rs_r = unat (n P * tau P)"
    and len_Ss: "length Ss = unat (tau P)"
    and len_row: "length (Ss ! unat ctr) = unat (delta P)"
    and len_sk: "length sk = unat (n P)"
    and len_e_0: "length e_0 = unat (n P)"
    and len_e_1: "length e_1 = unat (n P)"
  shows "\<exists>atil atil_sum y.
           for_loop [0 ..< unat (n P)] (blind_eval_body P Rs_r sk e_0 e_1 ctr)
             (replicate (unat (n P)) (0, 0), 0) = Inr (atil, atil_sum) \<and>
           length atil = unat (n P) \<and>
           (\<forall>i<unat (n P).
              uint (fst (atil ! i))
                = (uint (e_0 ! i) - uint (lane0 (Rs_r ! (unat ctr * unat (n P) + i)))) mod uint (q P) \<and>
              uint (snd (atil ! i))
                = (uint (e_1 ! i) - uint (lane0 (Rs_r ! (unat ctr * unat (n P) + i)))) mod uint (q P)) \<and>
           uint (atil_sum AND (q P - 1))
             = (\<Sum>i<unat (n P). uint (sel2 (atil ! i) (sk ! i))) mod uint (q P) \<and>
           blind_eval P Rs_r Ss sk e_0 e_1 bpr_bar ctr = Inr y \<and>
           length y = unat (delta P) \<and>
           (\<forall>k<unat (delta P).
              uint (y ! k)
                = (((uint (atil_sum AND (q P - 1)) - int k) mod uint (q P)) div uint (delta P)
                   + uint (lane0 (Ss ! unat ctr ! nat ((int k - uint bpr_bar) mod uint (delta P)))))
                  mod uint (p P) \<and>
              uint (y ! k) < uint (p P))"
proof -
  let ?N = "unat (n P)" and ?Q = "unat (lg_q P)" and ?D = "unat (lg_delta P)" and ?L = "unat (lg_p P)"
  define atil where "atil = map (be_atil P Rs_r e_0 e_1 ctr) [0 ..< ?N]"
  define atil_sum where "atil_sum = (\<Sum>j<?N. sel2 (be_atil P Rs_r e_0 e_1 ctr j) (sk ! j))"
  define y where "y = map (be_y P Ss bpr_bar (atil_sum AND (q P - 1)) ctr) [0 ..< unat (delta P)]"
  have Q: "?Q \<le> LENGTH(32)" using consistentD [OF cons] by simp
  have slot: "\<And>i. i < ?N \<Longrightarrow> unat (ctr * n P + of_nat i) = unat ctr * ?N + i"
    and slot_lt: "\<And>i. i < ?N \<Longrightarrow> unat ctr * ?N + i < length Rs_r"
    using slot_index [OF cons ctr] unat_n_tau [OF cons] len_Rs_r by simp_all
  have slots: "\<forall>i<?N. unat (ctr * n P + of_nat i) < length Rs_r"
    using slot slot_lt by simp
  have loop: "for_loop [0 ..< ?N] (blind_eval_body P Rs_r sk e_0 e_1 ctr) (replicate ?N (0, 0), 0)
              = Inr (atil, atil_sum)"
    using blind_eval_loop_closed_form [of P e_0 e_1 sk ctr Rs_r ?N] slots
    by (simp add: len_e_0 len_e_1 len_sk be_state_def atil_def atil_sum_def)
  have col: "\<forall>i<unat (delta P). unat ((of_nat i - bpr_bar) AND (delta P - 1)) < length (Ss ! unat ctr)"
    by (simp add: and_delta len_row take_bit_delta_less [OF cons])
  have be: "blind_eval P Rs_r Ss sk e_0 e_1 bpr_bar ctr = Inr y"
    using blind_eval_closed_form [of P e_0 e_1 sk ctr Rs_r Ss bpr_bar] slots ctr col
    by (simp add: len_e_0 len_e_1 len_sk len_Ss y_def atil_sum_def be_atil_sum_def)
  have la: "length atil = ?N" by (simp add: atil_def)
  have ly: "length y = unat (delta P)" by (simp add: y_def)
  have at: "\<forall>i<?N.
      uint (fst (atil ! i)) = (uint (e_0 ! i) - uint (lane0 (Rs_r ! (unat ctr * ?N + i)))) mod uint (q P) \<and>
      uint (snd (atil ! i)) = (uint (e_1 ! i) - uint (lane0 (Rs_r ! (unat ctr * ?N + i)))) mod uint (q P)"
    by (simp add: atil_def be_atil_def and_q slot uint_take_bit_diff [OF Q] uint_q [OF cons])
  have "uint (atil_sum AND (q P - 1)) = (\<Sum>i<?N. uint (sel2 (be_atil P Rs_r e_0 e_1 ctr i) (sk ! i))) mod 2 ^ ?Q"
    unfolding atil_sum_def and_q using Q by (rule uint_take_bit_sum)
  also have "(\<Sum>i<?N. uint (sel2 (be_atil P Rs_r e_0 e_1 ctr i) (sk ! i)))
             = (\<Sum>i<?N. uint (sel2 (atil ! i) (sk ! i)))"
    by (intro sum.cong) (simp_all add: atil_def)
  finally have asum: "uint (atil_sum AND (q P - 1))
                      = (\<Sum>i<?N. uint (sel2 (atil ! i) (sk ! i))) mod uint (q P)"
    by (simp only: uint_q [OF cons])
  have yv: "\<forall>k<unat (delta P).
      uint (y ! k)
        = (((uint (atil_sum AND (q P - 1)) - int k) mod uint (q P)) div uint (delta P)
           + uint (lane0 (Ss ! unat ctr ! nat ((int k - uint bpr_bar) mod uint (delta P)))))
          mod uint (p P) \<and>
      uint (y ! k) < uint (p P)"
  proof (intro allI impI conjI)
    fix k assume k: "k < unat (delta P)"
    then have yk: "y ! k = be_y P Ss bpr_bar (atil_sum AND (q P - 1)) ctr k"
      by (simp add: y_def)
    show "uint (y ! k)
          = (((uint (atil_sum AND (q P - 1)) - int k) mod uint (q P)) div uint (delta P)
             + uint (lane0 (Ss ! unat ctr ! nat ((int k - uint bpr_bar) mod uint (delta P)))))
            mod uint (p P)"
      unfolding yk using cons k by (rule uint_be_y)
    have "uint (y ! k) = uint (y ! k) mod 2 ^ ?L"
      unfolding yk be_y_def and_p by (simp only: uint_take_bit mod_mod_trivial)
    also have "\<dots> < 2 ^ ?L" by simp
    finally show "uint (y ! k) < uint (p P)"
      by (simp only: uint_p [OF cons])
  qed
  have "for_loop [0 ..< ?N] (blind_eval_body P Rs_r sk e_0 e_1 ctr) (replicate ?N (0, 0), 0)
          = Inr (atil, atil_sum) \<and>
        length atil = ?N \<and>
        (\<forall>i<?N.
           uint (fst (atil ! i)) = (uint (e_0 ! i) - uint (lane0 (Rs_r ! (unat ctr * ?N + i)))) mod uint (q P) \<and>
           uint (snd (atil ! i)) = (uint (e_1 ! i) - uint (lane0 (Rs_r ! (unat ctr * ?N + i)))) mod uint (q P)) \<and>
        uint (atil_sum AND (q P - 1)) = (\<Sum>i<?N. uint (sel2 (atil ! i) (sk ! i))) mod uint (q P) \<and>
        blind_eval P Rs_r Ss sk e_0 e_1 bpr_bar ctr = Inr y \<and>
        length y = unat (delta P) \<and>
        (\<forall>k<unat (delta P).
           uint (y ! k)
             = (((uint (atil_sum AND (q P - 1)) - int k) mod uint (q P)) div uint (delta P)
                + uint (lane0 (Ss ! unat ctr ! nat ((int k - uint bpr_bar) mod uint (delta P)))))
               mod uint (p P) \<and>
           uint (y ! k) < uint (p P))"
    using loop la at asum be ly yv by (intro conjI)
  then show ?thesis by (intro exI)
qed

theorem blind_eval_reply_witness:
  "\<exists>atil atil_sum y.
     for_loop [0 ..< unat (n ex_P)] (blind_eval_body ex_P ex_Rs_r ex_sk [0, 0] [570, 3023] 0)
       (replicate (unat (n ex_P)) (0, 0), 0) = Inr (atil, atil_sum) \<and>
     length atil = unat (n ex_P) \<and>
     (\<forall>i<unat (n ex_P).
        uint (fst (atil ! i))
          = (uint ([0, 0 :: u32] ! i) - uint (lane0 (ex_Rs_r ! (unat (0::u32) * unat (n ex_P) + i)))) mod uint (q ex_P) \<and>
        uint (snd (atil ! i))
          = (uint ([570, 3023 :: u32] ! i) - uint (lane0 (ex_Rs_r ! (unat (0::u32) * unat (n ex_P) + i)))) mod uint (q ex_P)) \<and>
     uint (atil_sum AND (q ex_P - 1))
       = (\<Sum>i<unat (n ex_P). uint (sel2 (atil ! i) (ex_sk ! i))) mod uint (q ex_P) \<and>
     blind_eval ex_P ex_Rs_r ex_Ss ex_sk [0, 0] [570, 3023] 5 0 = Inr y \<and>
     length y = unat (delta ex_P) \<and>
     (\<forall>k<unat (delta ex_P).
        uint (y ! k)
          = (((uint (atil_sum AND (q ex_P - 1)) - int k) mod uint (q ex_P)) div uint (delta ex_P)
             + uint (lane0 (ex_Ss ! unat (0::u32) ! nat ((int k - uint (5::u32)) mod uint (delta ex_P)))))
            mod uint (p ex_P) \<and>
        uint (y ! k) < uint (p ex_P))"
proof -
  have cons: "consistent ex_P"
    by (simp add: consistent_def ex_P_def lg_delta_def lg_p_def)
  have ctr: "unat (0::u32) < unat (tau ex_P)" by (simp add: ex_P_def)
  have len_Rs_r: "length ex_Rs_r = unat (n ex_P * tau ex_P)" by (simp add: ex_P_def ex_Rs_r_def)
  have len_Ss: "length ex_Ss = unat (tau ex_P)" by (simp add: ex_P_def ex_Ss_def)
  have len_row: "length (ex_Ss ! unat (0::u32)) = unat (delta ex_P)"
    by (simp add: ex_P_def ex_Ss_def delta_def lg_delta_def)
  have len_sk: "length ex_sk = unat (n ex_P)" by (simp add: ex_P_def ex_sk_def)
  have len_e_0: "length [0, 0 :: u32] = unat (n ex_P)" by (simp add: ex_P_def)
  have len_e_1: "length [570, 3023 :: u32] = unat (n ex_P)" by (simp add: ex_P_def)
  show ?thesis
    by (rule blind_eval_reply [OF cons ctr len_Rs_r len_Ss len_row len_sk len_e_0 len_e_1])
qed

section \<open>The accumulators\<close>

lemma shipped_consistent: "consistent shipped"
  by (simp add: consistent_def shipped_def lg_delta_def lg_p_def)

lemma unat_sum_bounded:
  fixes f :: "nat \<Rightarrow> u32"
  assumes "\<And>j. j < k \<Longrightarrow> unat (f j) \<le> B" and "k * B < 2 ^ 32"
  shows "unat (\<Sum>j<k. f j) = (\<Sum>j<k. unat (f j)) \<and> (\<Sum>j<k. unat (f j)) \<le> k * B"
  using assms
proof (induction k)
  case 0
  show ?case by simp
next
  case (Suc k)
  have "k * B \<le> Suc k * B" by simp
  then have kB: "k * B < 2 ^ 32" using Suc.prems(2) by (rule le_less_trans)
  have IH: "unat (\<Sum>j<k. f j) = (\<Sum>j<k. unat (f j))" "(\<Sum>j<k. unat (f j)) \<le> k * B"
    using Suc.IH [OF _ kB] Suc.prems(1) by simp_all
  have fk: "unat (f k) \<le> B" using Suc.prems(1) by simp
  have le: "(\<Sum>j<Suc k. unat (f j)) \<le> Suc k * B"
    using IH(2) fk by simp
  then have "unat (\<Sum>j<k. f j) + unat (f k) < 2 ^ LENGTH(32)"
    using Suc.prems(2) IH(1) by simp
  then have "unat ((\<Sum>j<k. f j) + f k) = unat (\<Sum>j<k. f j) + unat (f k)"
    by (simp only: unat_add_lem)
  then have "unat (\<Sum>j<Suc k. f j) = (\<Sum>j<Suc k. unat (f j))"
    using IH(1) by simp
  with le show ?case by simp
qed

lemma unat_and_q_le: "unat ((x :: u32) AND (q P - 1)) \<le> 2 ^ unat (lg_q P) - 1"
proof -
  have "unat (x AND (q P - 1)) = unat x mod 2 ^ unat (lg_q P)"
    unfolding and_q by (simp only: unsigned_take_bit_eq) (simp only: take_bit_eq_mod)
  moreover have "unat x mod 2 ^ unat (lg_q P) < 2 ^ unat (lg_q P)"
    by simp
  ultimately show ?thesis by linarith
qed

lemma sum_reduced_each_step_eq:
  "sum_reduced_each_step P (map f [0 ..< k]) = (\<Sum>j<k. f j) AND (q P - 1)"
proof (induction k)
  case 0
  show ?case by (simp add: sum_reduced_each_step_def)
next
  case (Suc k)
  have "sum_reduced_each_step P (map f [0 ..< Suc k])
        = (sum_reduced_each_step P (map f [0 ..< k]) + f k) AND (q P - 1)"
    by (simp add: sum_reduced_each_step_def)
  also have "\<dots> = (((\<Sum>j<k. f j) AND (q P - 1)) + f k) AND (q P - 1)"
    by (simp only: Suc.IH)
  also have "\<dots> = (\<Sum>j<Suc k. f j) AND (q P - 1)"
    by (simp add: and_q take_bit_word_add_l)
  finally show ?case .
qed

text \<open>
  Claim C8. The 32-bit accumulators \<^verbatim>\<open>c_sum\<close> and \<^verbatim>\<open>atil_sum\<close> never overflow. With
  the shipped constants \<open>n * (q - 1) < 2^21\<close>. Whenever \<open>n * (q - 1) < 2^32\<close>, after any
  number \<open>k \<le> n\<close> of iterations the accumulator holds the sum of its addends over
  the integers, at most \<open>k * (q - 1)\<close>; and masking it with \<open>q - 1\<close> gives what
  reducing after every addition gives.
\<close>

theorem accumulators_do_not_overflow:
  assumes cons: "consistent P" and ctr: "unat ctr < unat (tau P)"
    and len_Sc_uint: "length Sc_uint = unat (n P * tau P)"
    and len_b_bar: "length b_bar = unat (n P)"
    and len_dest: "length dest = 2 * unat (n P)"
    and len_Rs_r: "length Rs_r = unat (n P * tau P)"
    and len_sk: "length sk = unat (n P)"
    and len_e_0: "length e_0 = unat (n P)"
    and len_e_1: "length e_1 = unat (n P)"
    and bound: "unat (n P) * (2 ^ unat (lg_q P) - 1) < 2 ^ 32"
    and k: "k \<le> unat (n P)"
  shows "unat (n shipped) * (2 ^ unat (lg_q shipped) - 1) < (2::nat) ^ 21 \<and>
         (\<exists>a e_0' e_1' c_sum atil atil_sum.
            for_loop [0 ..< k] (request_body P Sc_uint b_bar dest ctr)
              (replicate (unat (n P)) 0, replicate (unat (n P)) 0, replicate (unat (n P)) 0, 0)
              = Inr (a, e_0', e_1', c_sum) \<and>
            unat c_sum
              = (\<Sum>i<k. unat ((0 - sel2 (Sc_uint ! unat (ctr * n P + of_nat i)) (b_bar ! i)) AND (q P - 1))) \<and>
            unat c_sum \<le> k * (2 ^ unat (lg_q P) - 1) \<and>
            c_sum AND (q P - 1)
              = sum_reduced_each_step P
                  (map (\<lambda>i. (0 - sel2 (Sc_uint ! unat (ctr * n P + of_nat i)) (b_bar ! i)) AND (q P - 1))
                     [0 ..< k]) \<and>
            for_loop [0 ..< k] (blind_eval_body P Rs_r sk e_0 e_1 ctr)
              (replicate (unat (n P)) (0, 0), 0) = Inr (atil, atil_sum) \<and>
            unat atil_sum = (\<Sum>i<k. unat (sel2 (atil ! i) (sk ! i))) \<and>
            unat atil_sum \<le> k * (2 ^ unat (lg_q P) - 1) \<and>
            atil_sum AND (q P - 1)
              = sum_reduced_each_step P (map (\<lambda>i. sel2 (atil ! i) (sk ! i)) [0 ..< k]))"
proof -
  let ?N = "unat (n P)" and ?B = "2 ^ unat (lg_q P) - 1 :: nat"
  let ?c = "\<lambda>i. (0 - sel2 (Sc_uint ! unat (ctr * n P + of_nat i)) (b_bar ! i)) AND (q P - 1)"
  let ?t = "\<lambda>i. sel2 (be_atil P Rs_r e_0 e_1 ctr i) (sk ! i)"
  define atil where "atil = map (be_atil P Rs_r e_0 e_1 ctr) [0 ..< k] @ replicate (?N - k) (0, 0)"
  have shipped: "unat (n shipped) * (2 ^ unat (lg_q shipped) - 1) < (2::nat) ^ 21"
    by (simp add: shipped_def)
  have "k * ?B \<le> ?N * ?B" using k by simp
  then have kB: "k * ?B < 2 ^ 32" using bound by (rule le_less_trans)
  have slots: "\<forall>i<?N. unat (ctr * n P + of_nat i) < unat (n P * tau P)"
    using slot_index [OF cons ctr] unat_n_tau [OF cons] by simp
  have rq: "for_loop [0 ..< k] (request_body P Sc_uint b_bar dest ctr)
              (replicate ?N 0, replicate ?N 0, replicate ?N 0, 0)
            = Inr (map (req_a P dest) [0 ..< k] @ replicate (?N - k) 0, replicate ?N 0,
                   map (req_e1 P Sc_uint b_bar dest ctr) [0 ..< k] @ replicate (?N - k) 0,
                   \<Sum>i<k. ?c i)"
    using request_loop_closed_form [of P dest b_bar ctr Sc_uint k] slots k
    by (simp add: len_dest len_b_bar len_Sc_uint req_state_def req_c_def)
  have c: "unat (\<Sum>i<k. ?c i) = (\<Sum>i<k. unat (?c i)) \<and> (\<Sum>i<k. unat (?c i)) \<le> k * ?B"
    using kB by (intro unat_sum_bounded unat_and_q_le)
  have c_red: "(\<Sum>i<k. ?c i) AND (q P - 1) = sum_reduced_each_step P (map ?c [0 ..< k])"
    by (rule sum_reduced_each_step_eq [symmetric])
  have be: "for_loop [0 ..< k] (blind_eval_body P Rs_r sk e_0 e_1 ctr) (replicate ?N (0, 0), 0)
            = Inr (atil, \<Sum>i<k. ?t i)"
    using blind_eval_loop_closed_form [of P e_0 e_1 sk ctr Rs_r k] slots k
    by (simp add: len_e_0 len_e_1 len_sk len_Rs_r be_state_def atil_def)
  have t_le: "\<And>i. unat (?t i) \<le> ?B"
  proof -
    fix i show "unat (?t i) \<le> ?B"
      by (cases "sk ! i")
        (simp_all only: sel2_def be_atil_def fst_conv snd_conv if_True if_False unat_and_q_le)
  qed
  have t: "unat (\<Sum>i<k. ?t i) = (\<Sum>i<k. unat (?t i)) \<and> (\<Sum>i<k. unat (?t i)) \<le> k * ?B"
    using kB by (intro unat_sum_bounded t_le)
  have t_red: "(\<Sum>i<k. ?t i) AND (q P - 1) = sum_reduced_each_step P (map ?t [0 ..< k])"
    by (rule sum_reduced_each_step_eq [symmetric])
  have nth_atil: "\<And>i. i < k \<Longrightarrow> sel2 (atil ! i) (sk ! i) = ?t i"
    by (simp add: atil_def nth_append)
  have t_sum: "(\<Sum>i<k. unat (?t i)) = (\<Sum>i<k. unat (sel2 (atil ! i) (sk ! i)))"
    by (intro sum.cong) (simp_all add: nth_atil)
  have t_map: "map ?t [0 ..< k] = map (\<lambda>i. sel2 (atil ! i) (sk ! i)) [0 ..< k]"
    by (intro map_cong) (simp_all add: nth_atil)
  have
    "for_loop [0 ..< k] (request_body P Sc_uint b_bar dest ctr)
       (replicate ?N 0, replicate ?N 0, replicate ?N 0, 0)
       = Inr (map (req_a P dest) [0 ..< k] @ replicate (?N - k) 0, replicate ?N 0,
              map (req_e1 P Sc_uint b_bar dest ctr) [0 ..< k] @ replicate (?N - k) 0,
              \<Sum>i<k. ?c i) \<and>
     unat (\<Sum>i<k. ?c i) = (\<Sum>i<k. unat (?c i)) \<and>
     unat (\<Sum>i<k. ?c i) \<le> k * ?B \<and>
     (\<Sum>i<k. ?c i) AND (q P - 1) = sum_reduced_each_step P (map ?c [0 ..< k]) \<and>
     for_loop [0 ..< k] (blind_eval_body P Rs_r sk e_0 e_1 ctr) (replicate ?N (0, 0), 0)
       = Inr (atil, \<Sum>i<k. ?t i) \<and>
     unat (\<Sum>i<k. ?t i) = (\<Sum>i<k. unat (sel2 (atil ! i) (sk ! i))) \<and>
     unat (\<Sum>i<k. ?t i) \<le> k * ?B \<and>
     (\<Sum>i<k. ?t i) AND (q P - 1)
       = sum_reduced_each_step P (map (\<lambda>i. sel2 (atil ! i) (sk ! i)) [0 ..< k])"
    using rq c c_red be t t_red by (simp only: t_sum t_map)
  then have "\<exists>a e_0' e_1' c_sum atil atil_sum.
            for_loop [0 ..< k] (request_body P Sc_uint b_bar dest ctr)
              (replicate ?N 0, replicate ?N 0, replicate ?N 0, 0) = Inr (a, e_0', e_1', c_sum) \<and>
            unat c_sum = (\<Sum>i<k. unat (?c i)) \<and>
            unat c_sum \<le> k * ?B \<and>
            c_sum AND (q P - 1) = sum_reduced_each_step P (map ?c [0 ..< k]) \<and>
            for_loop [0 ..< k] (blind_eval_body P Rs_r sk e_0 e_1 ctr)
              (replicate ?N (0, 0), 0) = Inr (atil, atil_sum) \<and>
            unat atil_sum = (\<Sum>i<k. unat (sel2 (atil ! i) (sk ! i))) \<and>
            unat atil_sum \<le> k * ?B \<and>
            atil_sum AND (q P - 1)
              = sum_reduced_each_step P (map (\<lambda>i. sel2 (atil ! i) (sk ! i)) [0 ..< k])"
    by (intro exI)
  with shipped show ?thesis by (rule conjI)
qed


theorem accumulators_do_not_overflow_witness:
  "unat (n shipped) * (2 ^ unat (lg_q shipped) - 1) < (2::nat) ^ 21 \<and>
   (\<exists>a e_0' e_1' c_sum atil atil_sum.
      for_loop [0 ..< unat (n shipped)]
        (request_body shipped (replicate (unat (n shipped * tau shipped)) (1, 1))
           (replicate (unat (n shipped)) False) (replicate (2 * unat (n shipped)) 0) 0)
        (replicate (unat (n shipped)) 0, replicate (unat (n shipped)) 0, replicate (unat (n shipped)) 0, 0)
        = Inr (a, e_0', e_1', c_sum) \<and>
      unat c_sum
        = (\<Sum>i<unat (n shipped).
             unat ((0 - sel2 (replicate (unat (n shipped * tau shipped)) (1, 1)
                                ! unat (0 * n shipped + of_nat i))
                          (replicate (unat (n shipped)) False ! i)) AND (q shipped - 1))) \<and>
      unat c_sum \<le> unat (n shipped) * (2 ^ unat (lg_q shipped) - 1) \<and>
      c_sum AND (q shipped - 1)
        = sum_reduced_each_step shipped
            (map (\<lambda>i. (0 - sel2 (replicate (unat (n shipped * tau shipped)) (1, 1)
                                    ! unat (0 * n shipped + of_nat i))
                              (replicate (unat (n shipped)) False ! i)) AND (q shipped - 1))
               [0 ..< unat (n shipped)]) \<and>
      for_loop [0 ..< unat (n shipped)]
        (blind_eval_body shipped (replicate (unat (n shipped * tau shipped)) 1)
           (replicate (unat (n shipped)) True) (replicate (unat (n shipped)) 0)
           (replicate (unat (n shipped)) 0) 0)
        (replicate (unat (n shipped)) (0, 0), 0) = Inr (atil, atil_sum) \<and>
      unat atil_sum
        = (\<Sum>i<unat (n shipped). unat (sel2 (atil ! i) (replicate (unat (n shipped)) True ! i))) \<and>
      unat atil_sum \<le> unat (n shipped) * (2 ^ unat (lg_q shipped) - 1) \<and>
      atil_sum AND (q shipped - 1)
        = sum_reduced_each_step shipped
            (map (\<lambda>i. sel2 (atil ! i) (replicate (unat (n shipped)) True ! i))
               [0 ..< unat (n shipped)]))"
proof -
  have ctr: "unat (0::u32) < unat (tau shipped)" by (simp add: shipped_def)
  have bound: "unat (n shipped) * (2 ^ unat (lg_q shipped) - 1) < (2::nat) ^ 32"
    by (simp add: shipped_def)
  show ?thesis
    by (rule accumulators_do_not_overflow [OF shipped_consistent ctr _ _ _ _ _ _ _ bound order_refl])
      (simp_all only: length_replicate)
qed

section \<open>Phase one: tiling of the choice bits\<close>

lemma length_concat_replicate: "length (concat (replicate j xs)) = j * length xs"
  by (induction j) simp_all

lemma concat_replicate_Suc: "concat (replicate (Suc j) xs) = concat (replicate j xs) @ xs"
  by (induction j) simp_all

lemma nth_concat_replicate:
  "j < t \<Longrightarrow> i < length xs \<Longrightarrow> concat (replicate t xs) ! (j * length xs + i) = xs ! i"
proof (induction t arbitrary: j)
  case 0
  then show ?case by simp
next
  case (Suc t)
  show ?case
  proof (cases j)
    case 0
    with Suc.prems show ?thesis by (simp add: nth_append)
  next
    case (Suc j')
    with Suc.prems have "j' < t" by simp
    from Suc.IH [OF this Suc.prems(2)] Suc show ?thesis
      by (simp add: nth_append)
  qed
qed

lemma update_mid:
  assumes "length xs = m" and "i < length ys" and "m + i < length zs"
  shows "(xs @ take i ys @ drop (m + i) zs)[m + i := ys ! i]
         = xs @ take (Suc i) ys @ drop (m + Suc i) zs"
proof -
  have "drop (m + i) zs = zs ! (m + i) # drop (Suc (m + i)) zs"
    using assms(3) by (simp add: Cons_nth_drop_Suc)
  then have "(xs @ take i ys @ drop (m + i) zs)[m + i := ys ! i]
             = xs @ take i ys @ (ys ! i # drop (Suc (m + i)) zs)"
    using assms(1,2) by (simp add: list_update_append)
  also have "\<dots> = xs @ take (Suc i) ys @ drop (m + Suc i) zs"
    using assms(2) by (simp add: take_Suc_conv_app_nth)
  finally show ?thesis .
qed

lemma tile_index:
  assumes "unat (n P) * unat (tau P) < 2 ^ 31" and "j < unat (tau P)" and "i < unat (n P)"
  shows "unat (of_nat j * n P + of_nat i) = j * unat (n P) + i"
    and "j * unat (n P) + i < unat (n P) * unat (tau P)"
proof -
  have "j * unat (n P) + i < Suc j * unat (n P)"
    using assms(3) by simp
  also have "\<dots> \<le> unat (tau P) * unat (n P)"
    using assms(2) by (intro mult_le_mono1) simp
  finally show b: "j * unat (n P) + i < unat (n P) * unat (tau P)"
    by (simp add: mult.commute)
  with assms(1) have "j * unat (n P) + i < 2 ^ 32"
    by simp
  then have "(j * unat (n P) + i) mod 2 ^ 32 = j * unat (n P) + i"
    by simp
  moreover have "unat (of_nat j * n P + of_nat i :: u32) = (j * unat (n P) + i) mod 2 ^ 32"
    by (simp only: unat_word_ariths unat_of_nat mod_simps) simp
  ultimately show "unat (of_nat j * n P + of_nat i) = j * unat (n P) + i"
    by simp
qed

lemma tile_body_step:
  assumes size: "unat (n P) * unat (tau P) < 2 ^ 31"
    and len_b: "length b = unat (n P) * unat (tau P)"
    and len_b_n: "length b_n = unat (n P)"
    and j: "j < unat (tau P)" and i: "i < unat (n P)"
  shows "tile_body P b_n j i (concat (replicate j b_n) @ take i b_n @ drop (j * unat (n P) + i) b)
         = Inr (concat (replicate j b_n) @ take (Suc i) b_n @ drop (j * unat (n P) + Suc i) b)"
proof -
  have idx: "unat (of_nat j * n P + of_nat i) = j * unat (n P) + i"
    and lt: "j * unat (n P) + i < length b"
    using tile_index [OF size j i] len_b by simp_all
  have lp: "length (concat (replicate j b_n)) = j * unat (n P)"
    by (simp add: length_concat_replicate len_b_n)
  have upd: "(concat (replicate j b_n) @ take i b_n @ drop (j * unat (n P) + i) b)
               [j * unat (n P) + i := b_n ! i]
             = concat (replicate j b_n) @ take (Suc i) b_n @ drop (j * unat (n P) + Suc i) b"
    using lp i lt by (intro update_mid) (simp_all add: len_b_n)
  have inr: "j * unat (n P) + i
             < length (concat (replicate j b_n) @ take i b_n @ drop (j * unat (n P) + i) b)"
    using lt i by (simp add: lp len_b_n)
  show ?thesis
    unfolding tile_body_def using i inr
    by (simp only: read_at_def write_at_def len_b_n idx upd if_True bind_f_Inr)
qed

lemma tile_row:
  assumes size: "unat (n P) * unat (tau P) < 2 ^ 31"
    and len_b: "length b = unat (n P) * unat (tau P)"
    and len_b_n: "length b_n = unat (n P)"
    and j: "j < unat (tau P)"
  shows "for_loop [0 ..< unat (n P)] (tile_body P b_n j)
           (concat (replicate j b_n) @ drop (j * unat (n P)) b)
         = Inr (concat (replicate (Suc j) b_n) @ drop (Suc j * unat (n P)) b)"
proof -
  let ?F = "\<lambda>i. concat (replicate j b_n) @ take i b_n @ drop (j * unat (n P) + i) b"
  have "for_loop [0 ..< unat (n P)] (tile_body P b_n j) (?F 0) = Inr (?F (unat (n P)))"
    by (intro for_loop_closed_form [where F = ?F] tile_body_step [OF size len_b len_b_n j])
  then show ?thesis
    by (simp add: len_b_n concat_replicate_Suc add.commute del: replicate_Suc)
qed

lemma tile_closed_form:
  assumes size: "unat (n P) * unat (tau P) < 2 ^ 31"
    and len_b: "length b = unat (n P) * unat (tau P)"
    and len_b_n: "length b_n = unat (n P)"
  shows "phase_one_iknp_receive_b P b_n b = Inr (concat (replicate (unat (tau P)) b_n))"
proof -
  let ?G = "\<lambda>j. concat (replicate j b_n) @ drop (j * unat (n P)) b"
  have "for_loop [0 ..< unat (tau P)] (\<lambda>j. for_loop [0 ..< unat (n P)] (tile_body P b_n j)) (?G 0)
        = Inr (?G (unat (tau P)))"
    by (intro for_loop_closed_form [where F = ?G] tile_row [OF size len_b len_b_n])
  then show ?thesis
    by (simp add: phase_one_iknp_receive_b_def len_b mult.commute)
qed

text \<open>
  Claim C7. After the tiling loop of \<^verbatim>\<open>phase_one_iknp_receive\<close>, run on a vector \<open>b\<close> of
  \<open>n * tau\<close> bits with \<open>n * tau\<close> within the range of the \<^verbatim>\<open>int\<close> loop counters, the
  choice vector is tiled: \<open>b[j*n + i] = b_n[i]\<close> for all \<open>j < tau\<close> and \<open>i < n\<close>, where
  \<open>b_n\<close> is the sampled pattern; equivalently \<open>b[j*n + i] = b[i]\<close>.
\<close>

theorem phase_one_choice_bits_tiled:
  assumes size: "unat (n P) * unat (tau P) < 2 ^ 31"
    and len_b: "length b = unat (n P * tau P)"
    and len_b_n: "length b_n = unat (n P)"
  shows "\<exists>b'. phase_one_iknp_receive_b P b_n b = Inr b' \<and>
           length b' = length b \<and>
           (\<forall>j<unat (tau P). \<forall>i<unat (n P).
              b' ! (j * unat (n P) + i) = b_n ! i \<and>
              b' ! (j * unat (n P) + i) = b' ! i)"
proof -
  let ?N = "unat (n P)" and ?T = "unat (tau P)"
  define b' where "b' = concat (replicate ?T b_n)"
  have "?N * ?T < 2 ^ LENGTH(32)" using size by simp
  then have "unat (n P * tau P) = ?N * ?T" by (simp only: unat_mult_lem)
  then have len: "length b = ?N * ?T" using len_b by simp
  have run: "phase_one_iknp_receive_b P b_n b = Inr b'"
    unfolding b'_def using size len len_b_n by (rule tile_closed_form)
  have lb: "length b' = length b"
    by (simp add: b'_def length_concat_replicate len_b_n len mult.commute)
  have nth: "\<And>j i. j < ?T \<Longrightarrow> i < ?N \<Longrightarrow> b' ! (j * ?N + i) = b_n ! i"
    unfolding b'_def using nth_concat_replicate [of _ ?T _ b_n] by (simp add: len_b_n)
  have tiled: "\<forall>j<?T. \<forall>i<?N. b' ! (j * ?N + i) = b_n ! i \<and> b' ! (j * ?N + i) = b' ! i"
  proof (intro allI impI)
    fix j i assume j: "j < ?T" and i: "i < ?N"
    then have "0 < ?T" by simp
    from nth [OF this i] nth [OF j i]
    show "b' ! (j * ?N + i) = b_n ! i \<and> b' ! (j * ?N + i) = b' ! i" by simp
  qed
  from run lb tiled show ?thesis by blast
qed

theorem phase_one_choice_bits_tiled_witness:
  "\<exists>b'. phase_one_iknp_receive_b shipped (map even [0 ..< unat (n shipped)])
            (replicate (unat (n shipped * tau shipped)) False) = Inr b' \<and>
     length b' = length (replicate (unat (n shipped * tau shipped)) False) \<and>
     (\<forall>j<unat (tau shipped). \<forall>i<unat (n shipped).
        b' ! (j * unat (n shipped) + i) = map even [0 ..< unat (n shipped)] ! i \<and>
        b' ! (j * unat (n shipped) + i) = b' ! i)"
proof -
  have size: "unat (n shipped) * unat (tau shipped) < 2 ^ 31"
    by (simp add: shipped_def)
  show ?thesis
    by (rule phase_one_choice_bits_tiled [OF size])
      (simp_all only: length_replicate length_map length_upt diff_zero)
qed

section \<open>The round counter\<close>

lemma online_loop_prefix:
  assumes "online_loop P Sc_uint Rs_r Ss Rc_r bpr sk b_bar dests rounds (ctr0, out0) = ((ctr, out), flt)"
  shows "\<exists>m out'. m \<le> length rounds \<and> ctr = ctr0 + of_nat m \<and>
           online_loop P Sc_uint Rs_r Ss Rc_r bpr sk b_bar dests (take m rounds) (ctr0, out0)
             = ((ctr, out'), None) \<and>
           length out' = length out0 + m \<and>
           (flt = None \<longrightarrow> m = length rounds) \<and>
           (flt \<noteq> None \<longrightarrow> m < length rounds)"
  using assms
proof (induction rounds arbitrary: ctr0 out0)
  case Nil
  then show ?case by (intro exI [of _ 0] exI [of _ out0]) simp
next
  case (Cons r rs)
  show ?case
  proof (cases "eval_round P Sc_uint Rs_r Ss Rc_r bpr sk b_bar (dests r) ctr0")
    case (Inl e)
    with Cons.prems show ?thesis
      by (intro exI [of _ 0] exI [of _ out0]) auto
  next
    case (Inr az)
    obtain a z where az: "az = (a, z)" by (cases az)
    show ?thesis
    proof (cases "sanity_check P sk a")
      case (Inl e)
      with Cons.prems Inr az show ?thesis
        by (intro exI [of _ 0] exI [of _ out0]) auto
    next
      case sc: (Inr eval_z)
      show ?thesis
      proof (cases "eval_z = z")
        case False
        with Cons.prems Inr az sc show ?thesis
          by (intro exI [of _ 0] exI [of _ out0]) auto
      next
        case True
        with Cons.prems Inr az sc
        have "online_loop P Sc_uint Rs_r Ss Rc_r bpr sk b_bar dests rs (ctr0 + 1, out0 @ [z])
              = ((ctr, out), flt)"
          by simp
        from Cons.IH [OF this] obtain m out' where
          m: "m \<le> length rs" "ctr = ctr0 + 1 + of_nat m"
            "online_loop P Sc_uint Rs_r Ss Rc_r bpr sk b_bar dests (take m rs) (ctr0 + 1, out0 @ [z])
               = ((ctr, out'), None)"
            "length out' = length (out0 @ [z]) + m"
            "flt = None \<longrightarrow> m = length rs" "flt \<noteq> None \<longrightarrow> m < length rs"
          by blast
        have "online_loop P Sc_uint Rs_r Ss Rc_r bpr sk b_bar dests (take (Suc m) (r # rs)) (ctr0, out0)
              = ((ctr, out'), None)"
          using Inr az sc True m(3) by simp
        with m show ?thesis
          by (intro exI [of _ "Suc m"] exI [of _ out']) (simp add: algebra_simps)
      qed
    qed
  qed
qed

text \<open>
  Claim C4. With \<open>num_rounds \<le> tau\<close> (as for the shipped constants), at every point of
  the online loop \<open>0 \<le> ctr \<le> num_rounds \<le> tau\<close>. The counter starts at 0 and is
  incremented exactly once at the end of each completed round: after \<open>k\<close> iterations
  without fault it equals \<open>k\<close> (so it strictly increases from one completed round to
  the next, and equals \<open>num_rounds\<close> when the loop ends, \<open>k = num_rounds\<close>); a round
  that ends in a fault does not advance it, so \<open>ctr\<close> always counts the completed
  rounds.
\<close>

theorem counter_discipline:
  assumes le: "unat (num_rounds P) \<le> unat (tau P)" and k: "k \<le> unat (num_rounds P)"
    and run: "online_loop P Sc_uint Rs_r Ss Rc_r bpr sk b_bar dests [0 ..< k] (0, []) = ((ctr, out), flt)"
  shows "unat (num_rounds shipped) \<le> unat (tau shipped) \<and>
         0 \<le> unat ctr \<and> unat ctr \<le> unat (num_rounds P) \<and> unat (num_rounds P) \<le> unat (tau P) \<and>
         unat ctr \<le> k \<and> (flt = None \<longrightarrow> unat ctr = k) \<and> (flt \<noteq> None \<longrightarrow> unat ctr < k) \<and>
         (\<exists>out'. online_loop P Sc_uint Rs_r Ss Rc_r bpr sk b_bar dests [0 ..< unat ctr] (0, [])
                   = ((ctr, out'), None) \<and>
                 length out' = unat ctr)"
proof -
  from online_loop_prefix [OF run] obtain m out' where
    m: "m \<le> k" "ctr = of_nat m"
      "online_loop P Sc_uint Rs_r Ss Rc_r bpr sk b_bar dests (take m [0 ..< k]) (0, []) = ((ctr, out'), None)"
      "length out' = m" "flt = None \<longrightarrow> m = k" "flt \<noteq> None \<longrightarrow> m < k"
    by auto
  have "unat (num_rounds P) < 2 ^ 32"
    using unsigned_less [of "num_rounds P", where ?'a = nat] by simp
  with m(1) k have "m < 2 ^ 32" by simp
  then have um: "unat ctr = m"
    by (simp add: m(2) unat_of_nat take_bit_nat_eq_self)
  have tk: "take m [0 ..< k] = [0 ..< m]"
    using m(1) by (simp add: take_upt)
  have ex: "\<exists>out'. online_loop P Sc_uint Rs_r Ss Rc_r bpr sk b_bar dests [0 ..< unat ctr] (0, [])
                   = ((ctr, out'), None) \<and>
                 length out' = unat ctr"
    using m(3,4) by (auto simp add: um tk)
  have "unat ctr \<le> k" "flt = None \<longrightarrow> unat ctr = k" "flt \<noteq> None \<longrightarrow> unat ctr < k"
    using m(1,5,6) by (simp_all add: um)
  moreover have "unat (num_rounds shipped) \<le> unat (tau shipped)"
    by (simp add: shipped_def)
  ultimately show ?thesis
    using k le ex by (intro conjI) simp_all
qed

theorem counter_discipline_witness:
  "unat (num_rounds shipped) \<le> unat (tau shipped) \<and>
   0 \<le> unat (1::u32) \<and> unat (1::u32) \<le> unat (num_rounds ex_P) \<and>
   unat (num_rounds ex_P) \<le> unat (tau ex_P) \<and> unat (1::u32) \<le> 1 \<and>
   unat (1::u32) = 1 \<and>
   (\<exists>out'. online_loop ex_P ex_Sc_uint ex_Rs_r ex_Ss ex_Rc_r ex_bpr ex_sk ex_b_bar (\<lambda>round. ex_dest)
              [0 ..< unat (1::u32)] (0, []) = ((1, out'), None) \<and>
           length out' = unat (1::u32))"
proof -
  have le: "unat (num_rounds ex_P) \<le> unat (tau ex_P)" by (simp add: ex_P_def)
  have k: "1 \<le> unat (num_rounds ex_P)" by (simp add: ex_P_def)
  have run: "online_loop ex_P ex_Sc_uint ex_Rs_r ex_Ss ex_Rc_r ex_bpr ex_sk ex_b_bar (\<lambda>round. ex_dest)
               [0 ..< 1] (0, []) = ((1, [224]), None)"
    by code_simp
  from counter_discipline [OF le k run] show ?thesis
    by simp
qed

section \<open>More rounds than preprocessed slots\<close>

text \<open>
  A round whose counter is below \<open>tau\<close> touches only slots that exist: with the arrays
  sized as \<^verbatim>\<open>main\<close> allocates them, Request, BlindEval and Finalize all return.
\<close>

lemma eval_round_returns:
  assumes cons: "consistent P" and ctr: "unat ctr < unat (tau P)"
    and len_Sc_uint: "length Sc_uint = unat (n P * tau P)"
    and len_Rs_r: "length Rs_r = unat (n P * tau P)"
    and len_bpr: "length bpr = unat (tau P)"
    and len_Rc_r: "length Rc_r = unat (tau P)"
    and len_Ss: "length Ss = unat (tau P)"
    and len_row: "length (Ss ! unat ctr) = unat (delta P)"
    and len_sk: "length sk = unat (n P)"
    and len_b_bar: "length b_bar = unat (n P)"
    and len_dest: "length dest = 2 * unat (n P)"
  shows "\<exists>a z. eval_round P Sc_uint Rs_r Ss Rc_r bpr sk b_bar dest ctr = Inr (a, z) \<and>
           length a = unat (n P)"
proof -
  let ?N = "unat (n P)"
  define a where "a = map (req_a P dest) [0 ..< ?N]"
  define e_0 where "e_0 = replicate ?N (0 :: u32)"
  define e_1 where "e_1 = map (req_e1 P Sc_uint b_bar dest ctr) [0 ..< ?N]"
  define c_sum where "c_sum = req_c_sum P Sc_uint b_bar ctr"
  define bpr_bar where "bpr_bar = req_bpr_bar P c_sum (bpr ! unat ctr)"
  define y where "y = map (be_y P Ss bpr_bar (be_atil_sum P Rs_r sk e_0 e_1 ctr) ctr) [0 ..< unat (delta P)]"
  have slots: "\<forall>i<?N. unat (ctr * n P + of_nat i) < unat (n P * tau P)"
    using slot_index [OF cons ctr] unat_n_tau [OF cons] by simp
  have rq: "request P Sc_uint b_bar bpr dest ctr = Inr (a, e_0, e_1, c_sum, bpr_bar)"
    unfolding a_def e_0_def e_1_def c_sum_def bpr_bar_def using slots ctr
    by (intro request_closed_form) (simp_all add: len_dest len_b_bar len_bpr len_Sc_uint)
  have col: "\<forall>i<unat (delta P). unat ((of_nat i - bpr_bar) AND (delta P - 1)) < length (Ss ! unat ctr)"
    by (simp add: and_delta len_row take_bit_delta_less [OF cons])
  have be: "blind_eval P Rs_r Ss sk e_0 e_1 bpr_bar ctr = Inr y"
    unfolding y_def using slots ctr col
    by (intro blind_eval_closed_form) (simp_all add: e_0_def e_1_def len_sk len_Rs_r len_Ss)
  have k: "unat (c_sum AND (delta P - 1)) < length y"
    by (simp add: y_def and_delta take_bit_delta_less [OF cons])
  have fin: "finalize P Rc_r y c_sum ctr
             = Inr ((y ! unat (c_sum AND (delta P - 1)) - lane0 (Rc_r ! unat ctr) - temp_val P c_sum) AND (p P - 1))"
    using ctr k by (intro finalize_closed_form) (simp_all add: len_Rc_r)
  have "eval_round P Sc_uint Rs_r Ss Rc_r bpr sk b_bar dest ctr
        = Inr (a, (y ! unat (c_sum AND (delta P - 1)) - lane0 (Rc_r ! unat ctr) - temp_val P c_sum) AND (p P - 1))"
    by (simp add: eval_round_def rq be fin)
  moreover have "length a = ?N" by (simp add: a_def)
  ultimately show ?thesis by blast
qed

lemma online_loop_out_prefix:
  assumes "online_loop P Sc_uint Rs_r Ss Rc_r bpr sk b_bar dests rounds (ctr0, out0) = ((ctr, out), flt)"
  shows "\<exists>rest. out = out0 @ rest"
  using assms
proof (induction rounds arbitrary: ctr0 out0)
  case Nil
  then show ?case by simp
next
  case (Cons r rs)
  show ?case
  proof (cases "eval_round P Sc_uint Rs_r Ss Rc_r bpr sk b_bar (dests r) ctr0")
    case (Inl e)
    with Cons.prems show ?thesis by auto
  next
    case (Inr az)
    obtain a z where az: "az = (a, z)" by (cases az)
    show ?thesis
    proof (cases "sanity_check P sk a")
      case (Inl e)
      with Cons.prems Inr az show ?thesis by auto
    next
      case sc: (Inr eval_z)
      show ?thesis
      proof (cases "eval_z = z")
        case False
        with Cons.prems Inr az sc show ?thesis by auto
      next
        case True
        with Cons.prems Inr az sc
        have "online_loop P Sc_uint Rs_r Ss Rc_r bpr sk b_bar dests rs (ctr0 + 1, out0 @ [z])
              = ((ctr, out), flt)"
          by simp
        from Cons.IH [OF this] show ?thesis by auto
      qed
    qed
  qed
qed

text \<open>
  Claim C3, as stated, fails: the program has no check of \<open>num_rounds\<close> against \<open>tau\<close>.
  Configured with \<open>num_rounds = 2\<close> and \<open>tau = 1\<close>, it does not refuse at startup: it
  enters the online loop, evaluates round 0 and prints its result (\<open>z = 224\<close>; \<open>ctr\<close>
  becomes 1). Round 1 then indexes the preprocessing arrays at \<open>ctr = tau\<close>, where
  the model stops.
\<close>

theorem rounds_beyond_tau_not_refused:
  "unat (tau ex_P_over) < unat (num_rounds ex_P_over) \<and>
   online_phase ex_P_over ex_Sc_uint ex_Rs_r ex_Ss ex_Rc_r ex_bpr ex_sk ex_b_bar (\<lambda>round. ex_dest)
     = ((1, [224]), Some OutOfBounds)"
proof -
  have "unat (tau ex_P_over) < unat (num_rounds ex_P_over)"
    by (simp add: ex_P_over_def)
  moreover have "online_phase ex_P_over ex_Sc_uint ex_Rs_r ex_Ss ex_Rc_r ex_bpr ex_sk ex_b_bar (\<lambda>round. ex_dest)
     = ((1, [224]), Some OutOfBounds)"
    by code_simp
  ultimately show ?thesis by (rule conjI)
qed

text \<open>
  Claim C3, amended. A configuration with \<open>num_rounds > tau\<close> is not detected: the
  source has no configuration check. For every such configuration with \<open>tau \<ge> 1\<close>,
  otherwise consistent and with the arrays sized as \<^verbatim>\<open>main\<close> allocates them, the
  online loop is entered and round 0 is evaluated: Request, BlindEval and Finalize of
  round 0 return a value \<open>z\<close>, and \<open>z\<close> is the first output of the online phase.
\<close>

theorem rounds_beyond_tau_round_0_evaluated:
  assumes gt: "unat (tau P) < unat (num_rounds P)" and tau1: "0 < unat (tau P)"
    and cons: "consistent P"
    and len_Sc_uint: "length Sc_uint = unat (n P * tau P)"
    and len_Rs_r: "length Rs_r = unat (n P * tau P)"
    and len_bpr: "length bpr = unat (tau P)"
    and len_Rc_r: "length Rc_r = unat (tau P)"
    and len_Ss: "length Ss = unat (tau P)"
    and len_row: "length (Ss ! 0) = unat (delta P)"
    and len_sk: "length sk = unat (n P)"
    and len_b_bar: "length b_bar = unat (n P)"
    and len_dest: "length (dests 0) = 2 * unat (n P)"
  shows "\<exists>a z ctr rest flt.
           eval_round P Sc_uint Rs_r Ss Rc_r bpr sk b_bar (dests 0) 0 = Inr (a, z) \<and>
           online_phase P Sc_uint Rs_r Ss Rc_r bpr sk b_bar dests = ((ctr, z # rest), flt)"
proof -
  let ?K = "unat (num_rounds P)"
  let ?loop = "online_loop P Sc_uint Rs_r Ss Rc_r bpr sk b_bar dests"
  have ctr0: "unat (0::u32) < unat (tau P)" using tau1 by simp
  have row0: "length (Ss ! unat (0::u32)) = unat (delta P)" using len_row by simp
  from eval_round_returns [OF cons ctr0 len_Sc_uint len_Rs_r len_bpr len_Rc_r len_Ss row0
      len_sk len_b_bar len_dest]
  obtain a z where ev: "eval_round P Sc_uint Rs_r Ss Rc_r bpr sk b_bar (dests 0) 0 = Inr (a, z)"
    by blast
  have "0 < ?K" using gt by simp
  then have rounds: "[0 ..< ?K] = 0 # [Suc 0 ..< ?K]" by (simp add: upt_conv_Cons)
  obtain ctr out flt where run: "?loop [0 ..< ?K] (0, []) = ((ctr, out), flt)"
    by (metis surj_pair)
  have "\<exists>rest. out = z # rest"
  proof (cases "sanity_check P sk a")
    case (Inl e)
    with run show ?thesis by (auto simp add: rounds ev)
  next
    case (Inr eval_z)
    show ?thesis
    proof (cases "eval_z = z")
      case False
      with run Inr show ?thesis by (auto simp add: rounds ev)
    next
      case True
      with run Inr have "?loop [Suc 0 ..< ?K] (0 + 1, [] @ [z]) = ((ctr, out), flt)"
        by (simp add: rounds ev)
      from online_loop_out_prefix [OF this] show ?thesis by simp
    qed
  qed
  with run ev show ?thesis
    by (auto simp add: online_phase_def)
qed

theorem rounds_beyond_tau_round_0_evaluated_witness:
  "unat (tau ex_P_over) < unat (num_rounds ex_P_over) \<and> 0 < unat (tau ex_P_over) \<and>
   consistent ex_P_over \<and>
   (\<exists>a z ctr rest flt.
      eval_round ex_P_over ex_Sc_uint ex_Rs_r ex_Ss ex_Rc_r ex_bpr ex_sk ex_b_bar ex_dest 0
        = Inr (a, z) \<and>
      online_phase ex_P_over ex_Sc_uint ex_Rs_r ex_Ss ex_Rc_r ex_bpr ex_sk ex_b_bar (\<lambda>round. ex_dest)
        = ((ctr, z # rest), flt))"
proof -
  have gt: "unat (tau ex_P_over) < unat (num_rounds ex_P_over)" by (simp add: ex_P_over_def)
  have tau1: "0 < unat (tau ex_P_over)" by (simp add: ex_P_over_def)
  have cons: "consistent ex_P_over"
    by (simp add: consistent_def ex_P_over_def lg_delta_def lg_p_def)
  have len_Sc_uint: "length ex_Sc_uint = unat (n ex_P_over * tau ex_P_over)"
    by (simp add: ex_P_over_def ex_Sc_uint_def)
  have len_Rs_r: "length ex_Rs_r = unat (n ex_P_over * tau ex_P_over)"
    by (simp add: ex_P_over_def ex_Rs_r_def)
  have len_bpr: "length ex_bpr = unat (tau ex_P_over)" by (simp add: ex_P_over_def ex_bpr_def)
  have len_Rc_r: "length ex_Rc_r = unat (tau ex_P_over)" by (simp add: ex_P_over_def ex_Rc_r_def)
  have len_Ss: "length ex_Ss = unat (tau ex_P_over)" by (simp add: ex_P_over_def ex_Ss_def)
  have len_row: "length (ex_Ss ! 0) = unat (delta ex_P_over)"
    by (simp add: ex_P_over_def ex_Ss_def delta_def lg_delta_def)
  have len_sk: "length ex_sk = unat (n ex_P_over)" by (simp add: ex_P_over_def ex_sk_def)
  have len_b_bar: "length ex_b_bar = unat (n ex_P_over)" by (simp add: ex_P_over_def ex_b_bar_def)
  have len_dest: "length ((\<lambda>round::nat. ex_dest) 0) = 2 * unat (n ex_P_over)"
    by (simp add: ex_P_over_def ex_dest_def)
  from rounds_beyond_tau_round_0_evaluated [OF gt tau1 cons len_Sc_uint len_Rs_r len_bpr len_Rc_r
      len_Ss len_row len_sk len_b_bar len_dest]
  have "\<exists>a z ctr rest flt.
      eval_round ex_P_over ex_Sc_uint ex_Rs_r ex_Ss ex_Rc_r ex_bpr ex_sk ex_b_bar ex_dest 0
        = Inr (a, z) \<and>
      online_phase ex_P_over ex_Sc_uint ex_Rs_r ex_Ss ex_Rc_r ex_bpr ex_sk ex_b_bar (\<lambda>round. ex_dest)
        = ((ctr, z # rest), flt)"
    by simp
  with gt tau1 cons show ?thesis by (intro conjI)
qed

section \<open>Finalize: the subtraction before the shift\<close>

text \<open>
  Claim C9. For every 32-bit value \<open>c_sum\<close>, the quantity Finalize subtracts,
  \<open>(c_sum - (c_sum AND (delta - 1))) >> lg_delta\<close>, equals \<open>c_sum >> lg_delta\<close>:
  clearing the low \<open>lg_delta\<close> bits before shifting them out changes nothing.
\<close>

theorem temp_val_is_shift: "temp_val P c_sum = drop_bit (unat (lg_delta P)) c_sum"
  by (rule temp_val_shift)

section \<open>Lane extraction through a signed intermediate\<close>

text \<open>
  Claim C10. For every block, lane 0 copied into an \<^verbatim>\<open>int32_t\<close> and then converted
  to a \<^verbatim>\<open>uint\<close> (as for \<^verbatim>\<open>Sc_uint\<close>, \<^verbatim>\<open>Rs_r_uint\<close>, \<^verbatim>\<open>Ss_uint\<close> and \<^verbatim>\<open>Rc_r_uint\<close>) is
  the unsigned reading of lane 0: the signed value and the unsigned one have the same
  residue modulo \<open>2^32\<close>, hence the same reductions modulo \<open>q\<close>, \<open>delta\<close> and \<open>p\<close>.
\<close>

theorem lane0_sign_insensitive:
  "uint_of_int32 (memcpy_int32x4 blk ! 0) = lane0 blk
   \<and> (memcpy_int32x4 blk ! 0) mod 2 ^ 32 = uint (lane0 blk)
   \<and> uint_of_int32 (memcpy_int32x4 blk ! 0) AND (q P - 1) = lane0 blk AND (q P - 1)
   \<and> uint_of_int32 (memcpy_int32x4 blk ! 0) AND (delta P - 1) = lane0 blk AND (delta P - 1)
   \<and> uint_of_int32 (memcpy_int32x4 blk ! 0) AND (p P - 1) = lane0 blk AND (p P - 1)"
proof -
  have w: "uint_of_int32 (memcpy_int32x4 blk ! 0) = lane0 blk"
    by (simp add: uint_of_int32_def memcpy_int32x4_def lane0_def)
  have "uint (uint_of_int32 (memcpy_int32x4 blk ! 0)) = (memcpy_int32x4 blk ! 0) mod 2 ^ 32"
    unfolding uint_of_int32_def by (simp add: uint_word_of_int)
  with w have r: "(memcpy_int32x4 blk ! 0) mod 2 ^ 32 = uint (lane0 blk)"
    by simp
  show ?thesis using w r by simp
qed

end
